theory Spec2Isabelle
  imports Main "HOL-Library.Multiset"
begin

section \<open>Jobs (internal/jobs/types.go)\<close>

text \<open>
  A \<open>JobStatus\<close> is one of the four string constants of the source. A \<open>JobType\<close> stays a
  string, because \<open>processJob\<close> has a branch for a type that is neither "start" nor "stop".
  A \<open>time.Time\<close> is the number of nanoseconds since the zero time, so that \<open>IsZero\<close> is
  the test for 0. A nil slice and an empty slice are both the empty list, except in the
  arguments of \<open>SetResults\<close>, which tests for nil.
\<close>

datatype JobStatus = JobStatusPending | JobStatusRunning | JobStatusCompleted | JobStatusFailed

type_synonym JobType = string
type_synonym Time = int

definition JobTypeStart :: JobType where "JobTypeStart = ''start''"
definition JobTypeStop :: JobType where "JobTypeStop = ''stop''"

fun status_string :: "JobStatus \<Rightarrow> string" where
  "status_string JobStatusPending = ''pending''"
| "status_string JobStatusRunning = ''running''"
| "status_string JobStatusCompleted = ''completed''"
| "status_string JobStatusFailed = ''failed''"

record Job =
  ID :: string
  Type :: JobType
  Status :: JobStatus
  CreatedAt :: Time
  StartedAt :: Time
  EndedAt :: Time
  Timeout :: int
  Ignore :: "string list"
  Started :: "string list"
  Stopped :: "string list"
  Skipped :: "string list"
  Failed :: "string list"
  Error :: string

definition IsZero :: "Time \<Rightarrow> bool" where
  "IsZero t = (t = 0)"

text \<open>\<open>NewJob\<close>: the UUID and the clock reading are inputs.\<close>

definition NewJob :: "string \<Rightarrow> Time \<Rightarrow> JobType \<Rightarrow> int \<Rightarrow> string list \<Rightarrow> Job" where
  "NewJob uuid now jobType timeout ignore =
     \<lparr>ID = uuid, Type = jobType, Status = JobStatusPending, CreatedAt = now,
      StartedAt = 0, EndedAt = 0, Timeout = timeout, Ignore = ignore,
      Started = [], Stopped = [], Skipped = [], Failed = [], Error = []\<rparr>"

fun SetStatus :: "Job \<Rightarrow> JobStatus \<Rightarrow> Time \<Rightarrow> Job" where
  "SetStatus j JobStatusRunning now =
     (let j1 = j\<lparr>Status := JobStatusRunning\<rparr>
      in if IsZero (StartedAt j1) then j1\<lparr>StartedAt := now\<rparr> else j1)"
| "SetStatus j JobStatusCompleted now =
     (let j1 = j\<lparr>Status := JobStatusCompleted\<rparr>
      in if IsZero (EndedAt j1) then j1\<lparr>EndedAt := now\<rparr> else j1)"
| "SetStatus j JobStatusFailed now =
     (let j1 = j\<lparr>Status := JobStatusFailed\<rparr>
      in if IsZero (EndedAt j1) then j1\<lparr>EndedAt := now\<rparr> else j1)"
| "SetStatus j JobStatusPending now = j\<lparr>Status := JobStatusPending\<rparr>"

definition SetError :: "Job \<Rightarrow> string \<Rightarrow> Time \<Rightarrow> Job" where
  "SetError j err now =
     (let j1 = j\<lparr>Error := err, Status := JobStatusFailed\<rparr>
      in if IsZero (EndedAt j1) then j1\<lparr>EndedAt := now\<rparr> else j1)"

definition SetResults ::
  "Job \<Rightarrow> string list option \<Rightarrow> string list option \<Rightarrow> string list option \<Rightarrow>
   string list option \<Rightarrow> Job" where
  "SetResults j started stopped skipped failed =
     (let j1 = (case started of None \<Rightarrow> j | Some v \<Rightarrow> j\<lparr>Started := v\<rparr>);
          j2 = (case stopped of None \<Rightarrow> j1 | Some v \<Rightarrow> j1\<lparr>Stopped := v\<rparr>);
          j3 = (case skipped of None \<Rightarrow> j2 | Some v \<Rightarrow> j2\<lparr>Skipped := v\<rparr>)
      in (case failed of None \<Rightarrow> j3 | Some v \<Rightarrow> j3\<lparr>Failed := v\<rparr>))"

section \<open>Job processing (internal/jobs/manager.go)\<close>

text \<open>
  The results of the orchestrator (internal/orchestrator/orchestrator.go). The call of
  \<open>StartContainers\<close> or \<open>StopContainers\<close> is an input of the job processing: either the
  text of the top-level error, or the three result lists, which the orchestrator always
  returns non-nil.
\<close>

record StartResult =
  r_Started :: "string list"
  r_Skipped :: "string list"
  r_Failed :: "string list"

record StopResult =
  s_Stopped :: "string list"
  s_Skipped :: "string list"
  s_Failed :: "string list"

definition processStartJob :: "Job \<Rightarrow> string + StartResult \<Rightarrow> Time \<Rightarrow> Job" where
  "processStartJob job outcome now =
     (case outcome of
        Inl err \<Rightarrow> SetError job err now
      | Inr result \<Rightarrow>
          SetStatus
            (SetResults job (Some (r_Started result)) None (Some (r_Skipped result))
               (Some (r_Failed result)))
            JobStatusCompleted now)"

definition processStopJob :: "Job \<Rightarrow> string + StopResult \<Rightarrow> Time \<Rightarrow> Job" where
  "processStopJob job outcome now =
     (case outcome of
        Inl err \<Rightarrow> SetError job err now
      | Inr result \<Rightarrow>
          SetStatus
            (SetResults job None (Some (s_Stopped result)) (Some (s_Skipped result))
               (Some (s_Failed result)))
            JobStatusCompleted now)"

text \<open>
  \<open>processJob\<close>: the worker marks the job running at \<open>t0\<close>, then dispatches on the type;
  the executor's outcome for a start and for a stop are both passed, and the one of the
  job's type is used.
\<close>

definition processJob ::
  "Job \<Rightarrow> string + StartResult \<Rightarrow> string + StopResult \<Rightarrow> Time \<Rightarrow> Time \<Rightarrow> Job" where
  "processJob job startOutcome stopOutcome t0 t1 =
     (let j = SetStatus job JobStatusRunning t0
      in if Type j = JobTypeStart then processStartJob j startOutcome t1
         else if Type j = JobTypeStop then processStopJob j stopOutcome t1
         else SetError j (''unknown job type: '' @ Type j) t1)"

section \<open>Properties of job processing\<close>

lemma Status_SetStatus: "Status (SetStatus j s now) = s"
  by (cases s) (simp_all add: Let_def)

lemma Status_SetError: "Status (SetError j e now) = JobStatusFailed"
  by (simp add: SetError_def Let_def)

lemma Error_SetError: "Error (SetError j e now) = e"
  by (simp add: SetError_def Let_def)

lemma Failed_SetStatus: "Failed (SetStatus j s now) = Failed j"
  by (cases s) (simp_all add: Let_def)

lemma Failed_SetResults: "Failed (SetResults j a b c (Some f)) = f"
  by (simp add: SetResults_def Let_def split: option.splits)

text \<open>
  Claim C5. A job whose executor call returns a result, whatever its failed list, ends
  Completed and carries that failed list; a job whose executor call returns a top-level
  error ends Failed with the error's text. This holds for start and for stop jobs.
\<close>

theorem C5_status_follows_executor_outcome:
  "Status (processStartJob job (Inr result) now) = JobStatusCompleted
   \<and> Failed (processStartJob job (Inr result) now) = r_Failed result
   \<and> Status (processStartJob job (Inl err) now) = JobStatusFailed
   \<and> Error (processStartJob job (Inl err) now) = err
   \<and> Status (processStopJob job (Inr sresult) now) = JobStatusCompleted
   \<and> Failed (processStopJob job (Inr sresult) now) = s_Failed sresult
   \<and> Status (processStopJob job (Inl err) now) = JobStatusFailed
   \<and> Error (processStopJob job (Inl err) now) = err"
  by (simp add: processStartJob_def processStopJob_def Status_SetStatus Status_SetError
      Error_SetError Failed_SetStatus Failed_SetResults del: SetStatus.simps)


section \<open>Retention and eviction (internal/jobs/manager.go, cleanup)\<close>

text \<open>
  The registry \<open>m.jobs\<close> is a Go map from job id to job. It is modelled as an association
  list with distinct keys; the order of the list is the order in which one \<open>range\<close> over
  the map happens to visit the entries, which Go leaves unspecified. A \<open>jobAge\<close> is the
  pair of the id and the age. \<open>Sub\<close> is \<open>time.Time.Sub\<close>, which saturates at the bounds
  of a 64-bit duration. The sort is the source's exchange sort, written with the same two
  index loops and the same swap.
\<close>
type_synonym jobAge = "string \<times> int"

definition swap :: "nat \<Rightarrow> nat \<Rightarrow> 'a list \<Rightarrow> 'a list" where
  "swap i j xs = xs[i := xs ! j, j := xs ! i]"

definition sort_step :: "nat \<Rightarrow> nat \<Rightarrow> jobAge list \<Rightarrow> jobAge list" where
  "sort_step i j e = (if snd (e ! j) > snd (e ! i) then swap i j e else e)"

definition sort_inner :: "nat \<Rightarrow> jobAge list \<Rightarrow> jobAge list" where
  "sort_inner i e = fold (sort_step i) [i + 1..<length e] e"

definition sort_by_age :: "jobAge list \<Rightarrow> jobAge list" where
  "sort_by_age e = fold sort_inner [0..<length e] e"

lemma length_swap [simp]: "length (swap i j xs) = length xs"
  by (simp add: swap_def)

lemma mset_swap': "i < length xs \<Longrightarrow> j < length xs \<Longrightarrow> mset (swap i j xs) = mset xs"
  unfolding swap_def by (metis mset_swap)

lemma length_sort_step [simp]: "length (sort_step i j e) = length e"
  by (simp add: sort_step_def)

lemma mset_sort_step: "i < length e \<Longrightarrow> j < length e \<Longrightarrow> mset (sort_step i j e) = mset e"
  by (simp add: sort_step_def mset_swap')

definition desc_upto :: "nat \<Rightarrow> jobAge list \<Rightarrow> bool" where
  "desc_upto k e = (\<forall>a<k. \<forall>b<length e. a < b \<longrightarrow> snd (e ! b) \<le> snd (e ! a))"

definition inner_inv :: "nat \<Rightarrow> nat \<Rightarrow> jobAge list \<Rightarrow> jobAge list \<Rightarrow> bool" where
  "inner_inv i m e0 e = (length e = length e0 \<and> mset e = mset e0 \<and> desc_upto i e
      \<and> (\<forall>b. i < b \<and> b < m \<longrightarrow> snd (e ! b) \<le> snd (e ! i)))"

lemma desc_upto_swap:
  assumes "desc_upto i e" "i \<le> j" "j < length e"
  shows "desc_upto i (swap i j e)"
  using assms unfolding desc_upto_def swap_def
  by (auto simp: nth_list_update)

lemma inner_inv_step:
  assumes "inner_inv i m e0 e" "i < m" "m < length e0"
  shows "inner_inv i (Suc m) e0 (sort_step i m e)"
proof -
  from assms have len: "length e = length e0" and ms: "mset e = mset e0"
    and d: "desc_upto i e" and b: "\<forall>b. i < b \<and> b < m \<longrightarrow> snd (e ! b) \<le> snd (e ! i)"
    by (auto simp: inner_inv_def)
  show ?thesis
  proof (cases "snd (e ! m) > snd (e ! i)")
    case True
    then have eq: "sort_step i m e = swap i m e" by (simp add: sort_step_def)
    have "desc_upto i (swap i m e)" using d assms len by (intro desc_upto_swap) auto
    moreover have "mset (swap i m e) = mset e0" using ms assms len by (simp add: mset_swap')
    moreover have "\<forall>b. i < b \<and> b < Suc m \<longrightarrow> snd (swap i m e ! b) \<le> snd (swap i m e ! i)"
      using b True assms len by (auto simp: swap_def nth_list_update less_Suc_eq)
    ultimately show ?thesis using len by (simp add: inner_inv_def eq)
  next
    case False
    then have eq: "sort_step i m e = e" by (simp add: sort_step_def)
    have "\<forall>b. i < b \<and> b < Suc m \<longrightarrow> snd (e ! b) \<le> snd (e ! i)"
      using b False by (auto simp: less_Suc_eq)
    then show ?thesis using len ms d by (simp add: inner_inv_def eq)
  qed
qed

lemma inner_inv_fold:
  assumes "inner_inv i (Suc i) e0 e" "Suc i \<le> m" "m \<le> length e0"
  shows "inner_inv i m e0 (fold (sort_step i) [Suc i..<m] e)"
  using assms(2,3)
proof (induction m)
  case 0
  then show ?case by simp
next
  case (Suc m)
  show ?case
  proof (cases "Suc i \<le> m")
    case True
    then have "inner_inv i m e0 (fold (sort_step i) [Suc i..<m] e)" using Suc by simp
    then have "inner_inv i (Suc m) e0 (sort_step i m (fold (sort_step i) [Suc i..<m] e))"
      using True Suc.prems by (intro inner_inv_step) auto
    then show ?thesis using True by simp
  next
    case False
    then have "m = i" using Suc.prems by simp
    then show ?thesis using assms(1) by simp
  qed
qed

lemma sort_inner_inv:
  assumes "desc_upto i e" "i < length e"
  shows "length (sort_inner i e) = length e \<and> mset (sort_inner i e) = mset e
         \<and> desc_upto (Suc i) (sort_inner i e)"
proof -
  have "inner_inv i (Suc i) e e" using assms by (simp add: inner_inv_def)
  then have "inner_inv i (length e) e (sort_inner i e)"
    unfolding sort_inner_def using assms(2) inner_inv_fold[of i e e "length e"] by simp
  then show ?thesis
    unfolding inner_inv_def desc_upto_def by (auto simp: less_Suc_eq)
qed

lemma sort_outer_inv:
  assumes "k \<le> length e"
  shows "length (fold sort_inner [0..<k] e) = length e \<and> mset (fold sort_inner [0..<k] e) = mset e
         \<and> desc_upto k (fold sort_inner [0..<k] e)"
  using assms
proof (induction k)
  case 0
  then show ?case by (simp add: desc_upto_def)
next
  case (Suc k)
  then have ih: "length (fold sort_inner [0..<k] e) = length e"
    "mset (fold sort_inner [0..<k] e) = mset e" "desc_upto k (fold sort_inner [0..<k] e)"
    by auto
  have "k < length (fold sort_inner [0..<k] e)" using Suc.prems ih by simp
  from sort_inner_inv[OF ih(3) this] show ?case using ih by simp
qed

lemma length_sort_by_age [simp]: "length (sort_by_age e) = length e"
  using sort_outer_inv[of "length e" e] by (simp add: sort_by_age_def)

lemma mset_sort_by_age [simp]: "mset (sort_by_age e) = mset e"
  using sort_outer_inv[of "length e" e] by (simp add: sort_by_age_def)

lemma sort_by_age_desc:
  "a < b \<Longrightarrow> b < length e \<Longrightarrow> snd (sort_by_age e ! b) \<le> snd (sort_by_age e ! a)"
  using sort_outer_inv[of "length e" e] by (auto simp add: sort_by_age_def desc_upto_def)

definition MinJobRetention :: int where
  "MinJobRetention = 3600 * 1000000000"

definition MaxJobCount :: nat where
  "MaxJobCount = 1000"

definition Sub :: "Time \<Rightarrow> Time \<Rightarrow> int" where
  "Sub t u = max (- (2 ^ 63)) (min (2 ^ 63 - 1) (t - u))"

type_synonym registry = "(string \<times> Job) list"

definition delete :: "registry \<Rightarrow> string \<Rightarrow> registry" where
  "delete m k = filter (\<lambda>kv. fst kv \<noteq> k) m"

text \<open>
  \<open>eligible_job\<close> is the test of the collecting loop, named for the statements below:
  the job is Completed or Failed and older than \<open>MinJobRetention\<close>.
\<close>

definition eligible_job :: "Time \<Rightarrow> Job \<Rightarrow> bool" where
  "eligible_job now job =
     ((Status job = JobStatusCompleted \<or> Status job = JobStatusFailed)
      \<and> Sub now (CreatedAt job) > MinJobRetention)"

fun collect_eligible :: "Time \<Rightarrow> registry \<Rightarrow> jobAge list" where
  "collect_eligible now [] = []"
| "collect_eligible now ((k, job) # rest) =
     (if Status job = JobStatusCompleted \<or> Status job = JobStatusFailed
      then (let age = Sub now (CreatedAt job)
            in if age > MinJobRetention then (k, age) # collect_eligible now rest
               else collect_eligible now rest)
      else collect_eligible now rest)"

definition cleanup :: "Time \<Rightarrow> registry \<Rightarrow> registry" where
  "cleanup now jobs =
     (let totalJobs = length jobs
      in if totalJobs = 0 then jobs
         else
           let eligible = collect_eligible now jobs
           in if length eligible = 0 \<and> totalJobs \<le> MaxJobCount then jobs
              else if totalJobs > MaxJobCount then
                (let ordered = sort_by_age eligible;
                     toRemove = totalJobs - MaxJobCount;
                     toRemove = (if toRemove > length ordered then length ordered else toRemove)
                 in fold (\<lambda>i m. delete m (fst (ordered ! i))) [0..<toRemove] jobs)
              else if length eligible > 0 then
                fold (\<lambda>ja m. delete m (fst ja)) eligible jobs
              else jobs)"

lemma collect_eligible_eq:
  "collect_eligible now jobs =
     map (\<lambda>kv. (fst kv, Sub now (CreatedAt (snd kv)))) (filter (\<lambda>kv. eligible_job now (snd kv)) jobs)"
  by (induction jobs rule: collect_eligible.induct) (auto simp: eligible_job_def Let_def)

lemma fold_delete:
  "fold (\<lambda>x m. delete m (f x)) xs m = filter (\<lambda>kv. fst kv \<notin> f ` set xs) m"
  by (induction xs arbitrary: m) (auto simp: delete_def intro: filter_cong)

lemma fold_delete_index:
  assumes "n \<le> length s"
  shows "fold (\<lambda>i m. delete m (f (s ! i))) [0..<n] m = filter (\<lambda>kv. fst kv \<notin> f ` set (take n s)) m"
proof -
  have "fold (\<lambda>i m. delete m (f (s ! i))) [0..<n] m = fold (\<lambda>x m. delete m (f x)) (map (\<lambda>i. s ! i) [0..<n]) m"
    by (simp add: fold_map comp_def)
  also have "map (\<lambda>i. s ! i) [0..<n] = take n s"
  proof -
    have "take n s = take n (map ((!) s) [0..<length s])" by (simp add: map_nth)
    also have "\<dots> = map ((!) s) [0..<n]"
      using assms by (simp only: take_map take_upt add_0)
    finally show ?thesis by simp
  qed
  finally show ?thesis by (simp add: fold_delete)
qed

text \<open>
  The entries whose ids one pass deletes (a definition of the proofs, not of the source):
  above the limit the first \<open>count - 1000\<close> entries of the sorted eligible list, else all
  of the eligible list.
\<close>

definition evicted :: "Time \<Rightarrow> registry \<Rightarrow> jobAge list" where
  "evicted now jobs =
     (if length jobs > MaxJobCount
      then take (length jobs - MaxJobCount) (sort_by_age (collect_eligible now jobs))
      else collect_eligible now jobs)"

lemma cleanup_filter:
  "cleanup now jobs = filter (\<lambda>kv. fst kv \<notin> fst ` set (evicted now jobs)) jobs"
proof (cases "length jobs > MaxJobCount")
  case True
  let ?s = "sort_by_age (collect_eligible now jobs)"
  let ?n = "length jobs - MaxJobCount"
  have "take (if ?n > length ?s then length ?s else ?n) ?s = take ?n ?s" by simp
  then show ?thesis using True
    by (simp add: cleanup_def Let_def evicted_def fold_delete_index del: length_sort_by_age)
next
  case False
  then show ?thesis
    by (auto simp add: cleanup_def Let_def evicted_def fold_delete)
qed


lemma set_sort_by_age [simp]: "set (sort_by_age e) = set e"
  using mset_sort_by_age[of e] by (metis set_mset_mset)

lemma evicted_subset: "set (evicted now jobs) \<subseteq> set (collect_eligible now jobs)"
  by (auto simp: evicted_def dest: in_set_takeD)

lemma collect_eligible_iff:
  "(k, a) \<in> set (collect_eligible now jobs) \<longleftrightarrow>
     (\<exists>job. (k, job) \<in> set jobs \<and> eligible_job now job \<and> a = Sub now (CreatedAt job))"
  by (auto simp: collect_eligible_eq image_iff)

lemma distinct_collect_eligible:
  "distinct (map fst jobs) \<Longrightarrow> distinct (map fst (collect_eligible now jobs))"
  by (simp add: collect_eligible_eq comp_def distinct_map_filter)

lemma distinct_sort_by_age:
  "distinct (map fst e) \<Longrightarrow> distinct (map fst (sort_by_age e))"
proof -
  assume d: "distinct (map fst e)"
  have "mset (map fst (sort_by_age e)) = mset (map fst e)"
    by (simp only: mset_map mset_sort_by_age)
  then show ?thesis using d by (metis distinct_count_atmost_1 set_mset_mset)
qed

lemma distinct_evicted:
  "distinct (map fst jobs) \<Longrightarrow> distinct (map fst (evicted now jobs))"
  by (auto simp: evicted_def distinct_collect_eligible distinct_sort_by_age take_map[symmetric]
      simp del: take_map intro: distinct_take)

lemma length_filter_keys:
  assumes "distinct (map fst m)" "distinct ds" "set ds \<subseteq> fst ` set m"
  shows "length (filter (\<lambda>kv. fst kv \<notin> set ds) m) = length m - length ds"
proof -
  define ks where "ks = map fst m"
  have "length (filter (\<lambda>kv. fst kv \<notin> set ds) m) = length (filter (\<lambda>k. k \<notin> set ds) ks)"
    unfolding ks_def by (induction m) auto
  also have "\<dots> = card ({k. k \<notin> set ds} \<inter> set ks)"
    using assms(1) unfolding ks_def by (rule distinct_length_filter)
  also have "{k. k \<notin> set ds} \<inter> set ks = set ks - set ds" by auto
  also have "card (set ks - set ds) = card (set ks) - card (set ds)"
    using assms(3) unfolding ks_def by (intro card_Diff_subset) auto
  also have "\<dots> = length m - length ds"
    using assms(1,2) unfolding ks_def by (simp add: distinct_card del: set_map)
  finally show ?thesis .
qed

lemma length_cleanup:
  assumes "distinct (map fst jobs)"
  shows "length (cleanup now jobs) = length jobs - length (evicted now jobs)"
proof -
  have sub: "set (map fst (evicted now jobs)) \<subseteq> fst ` set jobs"
    using evicted_subset[of now jobs] by (force simp: collect_eligible_iff)
  have "length (cleanup now jobs) =
        length (filter (\<lambda>kv. fst kv \<notin> set (map fst (evicted now jobs))) jobs)"
    by (simp add: cleanup_filter)
  also have "\<dots> = length jobs - length (map fst (evicted now jobs))"
    using assms distinct_evicted sub by (intro length_filter_keys) auto
  finally show ?thesis by simp
qed

lemma length_evicted:
  "length (evicted now jobs) =
     (if length jobs > MaxJobCount
      then min (length jobs - MaxJobCount) (length (collect_eligible now jobs))
      else length (collect_eligible now jobs))"
  by (simp add: evicted_def min.commute)

lemma removed_is_eligible:
  assumes "(k, job) \<in> set jobs" "(k, job) \<notin> set (cleanup now jobs)" "distinct (map fst jobs)"
  shows "eligible_job now job \<and> (k, Sub now (CreatedAt job)) \<in> set (evicted now jobs)"
proof -
  from assms(1,2) have "k \<in> fst ` set (evicted now jobs)" by (auto simp: cleanup_filter)
  then obtain a where a: "(k, a) \<in> set (evicted now jobs)" by force
  then have "(k, a) \<in> set (collect_eligible now jobs)" using evicted_subset by blast
  then obtain job' where j: "(k, job') \<in> set jobs" "eligible_job now job'" "a = Sub now (CreatedAt job')"
    by (auto simp: collect_eligible_iff)
  have "job' = job" using assms(1,3) j(1) by (meson eq_key_imp_eq_value)
  then show ?thesis using j a by simp
qed

lemma evicted_oldest:
  assumes "length jobs > MaxJobCount"
    and "(k, a) \<in> set (evicted now jobs)"
    and "(k', a') \<in> set (collect_eligible now jobs)" "(k', a') \<notin> set (evicted now jobs)"
  shows "a' \<le> a"
proof -
  let ?s = "sort_by_age (collect_eligible now jobs)"
  let ?n = "length jobs - MaxJobCount"
  have ev: "evicted now jobs = take ?n ?s" using assms(1) by (simp add: evicted_def)
  from assms(2) obtain i where i: "i < length (take ?n ?s)" "take ?n ?s ! i = (k, a)"
    unfolding ev by (auto simp: in_set_conv_nth)
  from assms(3) have "(k', a') \<in> set ?s" by simp
  then obtain j where j: "j < length ?s" "?s ! j = (k', a')" by (metis in_set_conv_nth)
  have "\<not> j < ?n"
  proof
    assume "j < ?n"
    then have "take ?n ?s ! j = (k', a')" "j < length (take ?n ?s)" using j by auto
    then have "(k', a') \<in> set (take ?n ?s)" by (metis nth_mem)
    then show False using assms(4) ev by simp
  qed
  moreover have "i < ?n" "i < length ?s" using i by auto
  ultimately have "i < j" by simp
  then have "snd (?s ! j) \<le> snd (?s ! i)" using j(1) sort_by_age_desc[of i j "collect_eligible now jobs"] by simp
  moreover have "?s ! i = (k, a)" using i by simp
  ultimately show ?thesis using j(2) by simp
qed


lemma map_of_filter_keys:
  "map_of (filter (\<lambda>kv. fst kv \<notin> D) m) k = (if k \<in> D then None else map_of m k)"
  by (induction m) auto

lemma map_of_cleanup:
  "map_of (cleanup now jobs) k =
     (if k \<in> fst ` set (evicted now jobs) then None else map_of jobs k)"
  unfolding cleanup_filter by (rule map_of_filter_keys)

text \<open>
  Three concrete registries: one with a pending job and an old completed job; one with
  1001 pending jobs under 1001 distinct ids; and one with 1001 jobs, of which 999 are
  pending, x failed two hours before the pass and y completed three hours before it.
\<close>

definition witness_registry :: registry where
  "witness_registry =
     [(''a'', NewJob ''a'' 0 JobTypeStart 600 []),
      (''b'', (NewJob ''b'' 0 JobTypeStop 300 [])\<lparr>Status := JobStatusCompleted\<rparr>)]"

definition stuck_registry :: registry where
  "stuck_registry =
     map (\<lambda>i. (replicate i (CHR ''j''), NewJob (replicate i (CHR ''j'')) 0 JobTypeStart 600 []))
       [0..<1001]"

definition full_registry :: registry where
  "full_registry =
     (''x'', (NewJob ''x'' 3600000000000 JobTypeStart 600 [])\<lparr>Status := JobStatusFailed\<rparr>)
     # (''y'', (NewJob ''y'' 0 JobTypeStop 300 [])\<lparr>Status := JobStatusCompleted\<rparr>)
     # take 999 stuck_registry"

lemma collect_eligible_none:
  "\<forall>kv \<in> set jobs. Status (snd kv) = JobStatusPending \<Longrightarrow> collect_eligible now jobs = []"
  by (induction jobs rule: collect_eligible.induct) auto

lemma sort_by_age_Nil [simp]: "sort_by_age [] = []"
  by (simp add: sort_by_age_def)

text \<open>
  Claim C9. In a registry with distinct ids, a job that is Pending or Running before a
  cleanup pass is found under its id, unchanged, after the pass; and a job that is no
  longer found after the pass is absent, was Completed or Failed, and was created more
  than \<open>MinJobRetention\<close> (one hour) before the pass.
\<close>

theorem C9_cleanup_keeps_non_terminal:
  assumes "distinct (map fst jobs)" and "map_of jobs k = Some job"
  shows "(Status job = JobStatusPending \<or> Status job = JobStatusRunning
            \<longrightarrow> map_of (cleanup now jobs) k = Some job)
       \<and> (map_of (cleanup now jobs) k \<noteq> Some job
            \<longrightarrow> map_of (cleanup now jobs) k = None
                \<and> (Status job = JobStatusCompleted \<or> Status job = JobStatusFailed)
                \<and> MinJobRetention < Sub now (CreatedAt job))"
proof -
  have mem: "(k, job) \<in> set jobs" using assms(2) by (rule map_of_SomeD)
  have gone: "map_of (cleanup now jobs) k \<noteq> Some job \<Longrightarrow>
      map_of (cleanup now jobs) k = None \<and> eligible_job now job"
  proof -
    assume ne: "map_of (cleanup now jobs) k \<noteq> Some job"
    then have ev: "k \<in> fst ` set (evicted now jobs)"
      using assms by (auto simp: map_of_cleanup split: if_splits)
    then have "(k, job) \<notin> set (cleanup now jobs)" by (auto simp: cleanup_filter)
    then have "eligible_job now job" using removed_is_eligible mem assms(1) by blast
    then show ?thesis using ev assms(1) by (simp add: map_of_cleanup)
  qed
  show ?thesis
  proof (intro conjI impI)
    assume "Status job = JobStatusPending \<or> Status job = JobStatusRunning"
    then have "\<not> eligible_job now job" by (auto simp: eligible_job_def)
    then show "map_of (cleanup now jobs) k = Some job" using gone by blast
  next
    assume "map_of (cleanup now jobs) k \<noteq> Some job"
    then show "map_of (cleanup now jobs) k = None" using gone by blast
  next
    assume "map_of (cleanup now jobs) k \<noteq> Some job"
    then show "Status job = JobStatusCompleted \<or> Status job = JobStatusFailed"
      using gone by (auto simp: eligible_job_def)
  next
    assume "map_of (cleanup now jobs) k \<noteq> Some job"
    then show "MinJobRetention < Sub now (CreatedAt job)"
      using gone by (auto simp: eligible_job_def)
  qed
qed

lemma cleanup_witness_registry:
  "cleanup 7200000000000 witness_registry = [(''a'', NewJob ''a'' 0 JobTypeStart 600 [])]"
  by (simp add: cleanup_def witness_registry_def NewJob_def MaxJobCount_def Sub_def
      MinJobRetention_def delete_def Let_def)

theorem C9_witness:
  "distinct (map fst witness_registry)
   \<and> map_of witness_registry ''a'' = Some (NewJob ''a'' 0 JobTypeStart 600 [])
   \<and> Status (NewJob ''a'' 0 JobTypeStart 600 []) = JobStatusPending
   \<and> map_of (cleanup 7200000000000 witness_registry) ''a''
       = Some (NewJob ''a'' 0 JobTypeStart 600 [])
   \<and> map_of (cleanup 7200000000000 witness_registry) ''b'' = None"
proof -
  have d: "distinct (map fst witness_registry)" by (simp add: witness_registry_def)
  have m: "map_of witness_registry ''a'' = Some (NewJob ''a'' 0 JobTypeStart 600 [])"
    by (simp add: witness_registry_def)
  have p: "Status (NewJob ''a'' 0 JobTypeStart 600 []) = JobStatusPending"
    by (simp add: NewJob_def)
  from C9_cleanup_keeps_non_terminal[OF d m, of 7200000000000] p
  have "map_of (cleanup 7200000000000 witness_registry) ''a''
          = Some (NewJob ''a'' 0 JobTypeStart 600 [])" by blast
  moreover have "map_of (cleanup 7200000000000 witness_registry) ''b'' = None"
    by (simp add: cleanup_witness_registry)
  ultimately show ?thesis using d m p by blast
qed

lemma stuck_registry_props:
  "distinct (map fst stuck_registry)" "length stuck_registry = 1001"
  "\<forall>kv \<in> set stuck_registry. Status (snd kv) = JobStatusPending"
proof -
  have "inj_on (\<lambda>i. replicate i (CHR ''j'')) (set [0..<1001])"
    by (rule inj_onI) (metis length_replicate)
  then show "distinct (map fst stuck_registry)"
    by (simp add: stuck_registry_def comp_def distinct_map)
  show "length stuck_registry = 1001" by (simp add: stuck_registry_def)
  show "\<forall>kv \<in> set stuck_registry. Status (snd kv) = JobStatusPending"
    by (auto simp: stuck_registry_def NewJob_def)
qed

lemma stuck_registry_keys: "kv \<in> set stuck_registry \<Longrightarrow> set (fst kv) \<subseteq> {CHR ''j''}"
  by (auto simp: stuck_registry_def)

lemma kept_is_filter:
  "filter (\<lambda>kv. kv \<in> set (filter P jobs)) jobs = filter P jobs"
  by (rule filter_cong) auto

lemma not_evicted_iff:
  assumes "distinct (map fst jobs)" "kv \<in> set jobs" "length jobs \<le> MaxJobCount"
  shows "fst kv \<notin> fst ` set (evicted now jobs) \<longleftrightarrow> \<not> eligible_job now (snd kv)"
proof -
  have ev: "evicted now jobs = collect_eligible now jobs" using assms(3) by (simp add: evicted_def)
  show ?thesis
  proof
    assume "fst kv \<notin> fst ` set (evicted now jobs)"
    then have "(fst kv, Sub now (CreatedAt (snd kv))) \<notin> set (collect_eligible now jobs)"
      unfolding ev by force
    then show "\<not> eligible_job now (snd kv)"
      using assms(2) by (auto simp: collect_eligible_iff)
  next
    assume ne: "\<not> eligible_job now (snd kv)"
    show "fst kv \<notin> fst ` set (evicted now jobs)"
    proof
      assume "fst kv \<in> fst ` set (evicted now jobs)"
      then obtain a where "(fst kv, a) \<in> set (collect_eligible now jobs)" unfolding ev by force
      then obtain job where j: "(fst kv, job) \<in> set jobs" "eligible_job now job"
        by (auto simp: collect_eligible_iff)
      have "(fst kv, snd kv) \<in> set jobs" using assms(2) by simp
      then have "job = snd kv" using assms(1) j(1) by (meson eq_key_imp_eq_value)
      then show False using j(2) ne by simp
    qed
  qed
qed

text \<open>
  Claim C3, amended. The claim as stated (at most 1000 jobs after every pass) fails when
  fewer jobs are eligible than the registry is over the limit: \<open>cleanup\<close> clamps the
  number it removes to the number of eligible jobs and never removes another job. What
  holds, for a registry with distinct ids: the pass keeps the jobs it keeps unchanged and
  in place, and every job it removes is eligible (Completed or Failed and older than one
  hour); at or below \<open>MaxJobCount\<close> it removes exactly the eligible jobs; above it, it
  removes \<open>min (count - 1000) (number eligible)\<close> jobs, each at least as old as every
  eligible job that stays; so the count after the pass is at most 1000 whenever at least
  \<open>count - 1000\<close> jobs are eligible.
\<close>

theorem C3_cleanup_count:
  assumes "distinct (map fst jobs)"
  shows "cleanup now jobs = filter (\<lambda>kv. kv \<in> set (cleanup now jobs)) jobs
       \<and> (\<forall>k job. (k, job) \<in> set jobs \<and> (k, job) \<notin> set (cleanup now jobs)
            \<longrightarrow> eligible_job now job)
       \<and> (length jobs \<le> MaxJobCount
            \<longrightarrow> cleanup now jobs = filter (\<lambda>kv. \<not> eligible_job now (snd kv)) jobs)
       \<and> (MaxJobCount < length jobs
            \<longrightarrow> length (cleanup now jobs)
                  = length jobs - min (length jobs - MaxJobCount)
                                      (length (filter (\<lambda>kv. eligible_job now (snd kv)) jobs))
                \<and> (\<forall>k job k' job'.
                     (k, job) \<in> set jobs \<and> (k, job) \<notin> set (cleanup now jobs)
                     \<and> (k', job') \<in> set (cleanup now jobs) \<and> eligible_job now job'
                     \<longrightarrow> Sub now (CreatedAt job') \<le> Sub now (CreatedAt job)))
       \<and> (length jobs - MaxJobCount \<le> length (filter (\<lambda>kv. eligible_job now (snd kv)) jobs)
            \<longrightarrow> length (cleanup now jobs) \<le> MaxJobCount)"
proof -
  let ?el = "filter (\<lambda>kv. eligible_job now (snd kv)) jobs"
  have nel: "length (collect_eligible now jobs) = length ?el"
    by (simp add: collect_eligible_eq)
  have kept: "cleanup now jobs = filter (\<lambda>kv. kv \<in> set (cleanup now jobs)) jobs"
    unfolding cleanup_filter by (rule kept_is_filter[symmetric])
  have removed: "eligible_job now job"
    if "(k, job) \<in> set jobs" "(k, job) \<notin> set (cleanup now jobs)" for k job
    using removed_is_eligible[OF that assms] by simp
  have small: "cleanup now jobs = filter (\<lambda>kv. \<not> eligible_job now (snd kv)) jobs"
    if "length jobs \<le> MaxJobCount"
    unfolding cleanup_filter
    by (rule filter_cong[OF refl]) (rule not_evicted_iff[OF assms _ that])
  have len: "length (cleanup now jobs) =
           (if MaxJobCount < length jobs
            then length jobs - min (length jobs - MaxJobCount) (length ?el)
            else length jobs - length ?el)"
    using length_cleanup[OF assms, of now] by (simp add: length_evicted nel)
  have le: "length ?el \<le> length jobs" by simp
  have bound: "length jobs - MaxJobCount \<le> length ?el \<Longrightarrow> length (cleanup now jobs) \<le> MaxJobCount"
    using len le by (auto simp: min_def split: if_splits)
  have oldest: "Sub now (CreatedAt job') \<le> Sub now (CreatedAt job)"
    if big: "MaxJobCount < length jobs" and r: "(k, job) \<in> set jobs" "(k, job) \<notin> set (cleanup now jobs)"
      and s: "(k', job') \<in> set (cleanup now jobs)" "eligible_job now job'"
    for k job k' job'
  proof -
    have ev: "(k, Sub now (CreatedAt job)) \<in> set (evicted now jobs)"
      using removed_is_eligible[OF r assms] by simp
    have in_jobs: "(k', job') \<in> set jobs" and nk: "k' \<notin> fst ` set (evicted now jobs)"
      using s(1) by (auto simp: cleanup_filter)
    have el: "(k', Sub now (CreatedAt job')) \<in> set (collect_eligible now jobs)"
      using in_jobs s(2) by (auto simp: collect_eligible_iff)
    have nev: "(k', Sub now (CreatedAt job')) \<notin> set (evicted now jobs)"
      using nk by force
    show ?thesis using evicted_oldest[OF big ev el nev] .
  qed
  have big: "length (cleanup now jobs)
               = length jobs - min (length jobs - MaxJobCount) (length ?el)"
    if "MaxJobCount < length jobs"
    using len that by simp
  show ?thesis
  proof (intro conjI impI allI)
    show "cleanup now jobs = filter (\<lambda>kv. kv \<in> set (cleanup now jobs)) jobs" by (rule kept)
  next
    fix k job assume "(k, job) \<in> set jobs \<and> (k, job) \<notin> set (cleanup now jobs)"
    then show "eligible_job now job" using removed by blast
  next
    assume "length jobs \<le> MaxJobCount"
    then show "cleanup now jobs = filter (\<lambda>kv. \<not> eligible_job now (snd kv)) jobs" by (rule small)
  next
    assume "MaxJobCount < length jobs"
    then show "length (cleanup now jobs)
                 = length jobs - min (length jobs - MaxJobCount) (length ?el)" by (rule big)
  next
    fix k job k' job'
    assume "MaxJobCount < length jobs"
      and "(k, job) \<in> set jobs \<and> (k, job) \<notin> set (cleanup now jobs)
           \<and> (k', job') \<in> set (cleanup now jobs) \<and> eligible_job now job'"
    then show "Sub now (CreatedAt job') \<le> Sub now (CreatedAt job)" using oldest by blast
  next
    assume "length jobs - MaxJobCount \<le> length ?el"
    then show "length (cleanup now jobs) \<le> MaxJobCount" by (rule bound)
  qed
qed


lemma full_registry_props:
  "distinct (map fst full_registry)" "length full_registry = 1001"
  "collect_eligible 10800000000000 full_registry
     = [(''x'', 7200000000000), (''y'', 10800000000000)]"
proof -
  have keys: "set k \<subseteq> {CHR ''j''}" if "k \<in> fst ` set (take 999 stuck_registry)" for k
    using that stuck_registry_keys by (auto dest: in_set_takeD)
  have "''x'' \<notin> fst ` set (take 999 stuck_registry)"
  proof
    assume "''x'' \<in> fst ` set (take 999 stuck_registry)"
    from keys[OF this] show False by simp
  qed
  moreover have "''y'' \<notin> fst ` set (take 999 stuck_registry)"
  proof
    assume "''y'' \<in> fst ` set (take 999 stuck_registry)"
    from keys[OF this] show False by simp
  qed
  moreover have "distinct (map fst (take 999 stuck_registry))"
    using stuck_registry_props(1) by (simp only: take_map[symmetric] distinct_take)
  ultimately show "distinct (map fst full_registry)" by (simp add: full_registry_def)
  show "length full_registry = 1001" by (simp add: full_registry_def stuck_registry_props(2))
  have "\<forall>kv \<in> set (take 999 stuck_registry). Status (snd kv) = JobStatusPending"
    using stuck_registry_props(3) by (auto dest: in_set_takeD)
  then have "collect_eligible 10800000000000 (take 999 stuck_registry) = []"
    by (rule collect_eligible_none)
  then show "collect_eligible 10800000000000 full_registry
     = [(''x'', 7200000000000), (''y'', 10800000000000)]"
    by (simp add: full_registry_def NewJob_def Sub_def MinJobRetention_def)
qed

lemma sort_by_age_pair:
  "sort_by_age [(''x'', 7200000000000), (''y'', 10800000000000)]
     = [(''y'', 10800000000000), (''x'', 7200000000000)]"
  by code_simp

lemma evicted_full_registry:
  "evicted 10800000000000 full_registry = [(''y'', 10800000000000)]"
  by (simp add: evicted_def full_registry_props sort_by_age_pair MaxJobCount_def)

theorem C3_witness:
  "distinct (map fst full_registry) \<and> MaxJobCount < length full_registry
   \<and> length (filter (\<lambda>kv. eligible_job 10800000000000 (snd kv)) full_registry) = 2
   \<and> length (cleanup 10800000000000 full_registry) = 1000
   \<and> map_of (cleanup 10800000000000 full_registry) ''y'' = None
   \<and> map_of (cleanup 10800000000000 full_registry) ''x'' = map_of full_registry ''x''
   \<and> distinct (map fst witness_registry) \<and> length witness_registry \<le> MaxJobCount
   \<and> cleanup 7200000000000 witness_registry = [(''a'', NewJob ''a'' 0 JobTypeStart 600 [])]"
proof -
  note d = full_registry_props(1)
  have big: "MaxJobCount < length full_registry"
    by (simp add: full_registry_props(2) MaxJobCount_def)
  have n: "length (filter (\<lambda>kv. eligible_job 10800000000000 (snd kv)) full_registry) = 2"
  proof -
    have "length (collect_eligible 10800000000000 full_registry) = 2"
      by (simp add: full_registry_props(3))
    then show ?thesis by (simp add: collect_eligible_eq)
  qed
  have len: "length (cleanup 10800000000000 full_registry) = 1000"
    using C3_cleanup_count[OF d, of 10800000000000] big n
    by (simp add: full_registry_props(2) MaxJobCount_def)
  have y: "map_of (cleanup 10800000000000 full_registry) ''y'' = None"
    by (simp add: map_of_cleanup evicted_full_registry)
  have x: "map_of (cleanup 10800000000000 full_registry) ''x'' = map_of full_registry ''x''"
    by (simp add: map_of_cleanup evicted_full_registry)
  have d': "distinct (map fst witness_registry)" by (simp add: witness_registry_def)
  have small: "length witness_registry \<le> MaxJobCount"
    by (simp add: witness_registry_def MaxJobCount_def)
  have "cleanup 7200000000000 witness_registry
          = filter (\<lambda>kv. \<not> eligible_job 7200000000000 (snd kv)) witness_registry"
    using C3_cleanup_count[OF d', of 7200000000000] small by blast
  also have "\<dots> = [(''a'', NewJob ''a'' 0 JobTypeStart 600 [])]"
    by (simp add: witness_registry_def eligible_job_def NewJob_def Sub_def MinJobRetention_def)
  finally show ?thesis using d big n len y x d' small by blast
qed

text \<open>
  The counterexample to C3 as stated: 1001 pending jobs, none of them eligible. The pass
  leaves all 1001 in the registry.
\<close>

theorem C3_counterexample:
  "distinct (map fst stuck_registry)
   \<and> length (cleanup 7200000000000 stuck_registry) = 1001
   \<and> \<not> length (cleanup 7200000000000 stuck_registry) \<le> MaxJobCount"
proof -
  have e: "collect_eligible 7200000000000 stuck_registry = []"
    using stuck_registry_props(3) by (rule collect_eligible_none)
  have "cleanup 7200000000000 stuck_registry = stuck_registry"
    by (simp add: cleanup_def Let_def e stuck_registry_props(2) MaxJobCount_def)
  then show ?thesis using stuck_registry_props by (simp add: MaxJobCount_def)
qed


section \<open>Strings of the Go standard library\<close>

text \<open>
  A Go string is a sequence of bytes, here a \<open>char list\<close>. The functions below are the
  ones of the packages \<open>strings\<close> and \<open>strconv\<close> that the repository calls.

  \<open>strings.TrimSpace\<close> removes leading and trailing white space as Unicode defines it:
  the six ASCII characters tab, line feed, vertical tab, form feed, carriage return and
  space, and the code points U+0085, U+00A0, U+1680, U+2000 to U+200A, U+2028, U+2029,
  U+202F, U+205F and U+3000, which \<open>space_runes\<close> lists in their UTF-8 encodings.
  \<open>TrimAscii\<close> is not a function of the source: it trims the six ASCII characters only,
  which is what the specification's words "ASCII whitespace" say.

  \<open>strings.SplitSeq s ","\<close> yields the pieces of \<open>s\<close> between commas, one piece for the
  empty string.

  \<open>strings.ToLower\<close> is modelled on ASCII letters; a byte outside \<open>A\<close> to \<open>Z\<close> is kept.
  The source only compares the result with "true" and "false", and no code point outside
  ASCII has a lower case among the letters of these two words, so the comparisons come
  out as in Go for every input.

  \<open>strconv.Atoi\<close> accepts an optional sign and at least one decimal digit, and fails when
  the value does not fit the 64-bit \<open>int\<close>. \<open>strconv.Itoa\<close> prints an integer in base 10.
\<close>

definition space_runes :: "string list" where
  "space_runes =
     [[CHR 0x09], [CHR 0x0A], [CHR 0x0B], [CHR 0x0C], [CHR 0x0D], [CHR 0x20],
      [CHR 0xC2, CHR 0x85], [CHR 0xC2, CHR 0xA0],
      [CHR 0xE1, CHR 0x9A, CHR 0x80],
      [CHR 0xE2, CHR 0x80, CHR 0x80], [CHR 0xE2, CHR 0x80, CHR 0x81],
      [CHR 0xE2, CHR 0x80, CHR 0x82], [CHR 0xE2, CHR 0x80, CHR 0x83],
      [CHR 0xE2, CHR 0x80, CHR 0x84], [CHR 0xE2, CHR 0x80, CHR 0x85],
      [CHR 0xE2, CHR 0x80, CHR 0x86], [CHR 0xE2, CHR 0x80, CHR 0x87],
      [CHR 0xE2, CHR 0x80, CHR 0x88], [CHR 0xE2, CHR 0x80, CHR 0x89],
      [CHR 0xE2, CHR 0x80, CHR 0x8A],
      [CHR 0xE2, CHR 0x80, CHR 0xA8], [CHR 0xE2, CHR 0x80, CHR 0xA9],
      [CHR 0xE2, CHR 0x80, CHR 0xAF],
      [CHR 0xE2, CHR 0x81, CHR 0x9F],
      [CHR 0xE3, CHR 0x80, CHR 0x80]]"

definition ascii_space_runes :: "string list" where
  "ascii_space_runes = [[CHR 0x09], [CHR 0x0A], [CHR 0x0B], [CHR 0x0C], [CHR 0x0D], [CHR 0x20]]"

fun starts_with :: "string \<Rightarrow> string \<Rightarrow> bool" where
  "starts_with s [] = True"
| "starts_with [] (r # rs) = False"
| "starts_with (c # cs) (r # rs) = (c = r \<and> starts_with cs rs)"

fun space_width :: "string list \<Rightarrow> string \<Rightarrow> nat" where
  "space_width [] s = 0"
| "space_width (r # rs) s = (if starts_with s r then length r else space_width rs s)"

function trim_left :: "string list \<Rightarrow> string \<Rightarrow> string" where
  "trim_left runes s =
     (if space_width runes s = 0 \<or> s = [] then s
      else trim_left runes (drop (space_width runes s) s))"
  by pat_completeness auto
termination
  by (relation "measure (\<lambda>(runes, s). length s)") auto

declare trim_left.simps [simp del]

definition trim_both :: "string list \<Rightarrow> string \<Rightarrow> string" where
  "trim_both runes s = rev (trim_left (map rev runes) (rev (trim_left runes s)))"

definition TrimSpace :: "string \<Rightarrow> string" where
  "TrimSpace s = trim_both space_runes s"

definition TrimAscii :: "string \<Rightarrow> string" where
  "TrimAscii s = trim_both ascii_space_runes s"

fun SplitSeq :: "string \<Rightarrow> string list" where
  "SplitSeq [] = [[]]"
| "SplitSeq (c # cs) =
     (if c = CHR '','' then [] # SplitSeq cs
      else (case SplitSeq cs of
              [] \<Rightarrow> [[c]]
            | p # ps \<Rightarrow> (c # p) # ps))"

definition lower_char :: "char \<Rightarrow> char" where
  "lower_char c =
     (case map_of (zip ''ABCDEFGHIJKLMNOPQRSTUVWXYZ'' ''abcdefghijklmnopqrstuvwxyz'') c of
        Some d \<Rightarrow> d | None \<Rightarrow> c)"

definition ToLower :: "string \<Rightarrow> string" where
  "ToLower s = map lower_char s"

definition digit_val :: "char \<Rightarrow> nat option" where
  "digit_val c = map_of (zip ''0123456789'' [0, 1, 2, 3, 4, 5, 6, 7, 8, 9]) c"

fun parse_digits :: "nat \<Rightarrow> string \<Rightarrow> nat option" where
  "parse_digits acc [] = Some acc"
| "parse_digits acc (c # cs) =
     (case digit_val c of None \<Rightarrow> None | Some d \<Rightarrow> parse_digits (acc * 10 + d) cs)"

definition Atoi :: "string \<Rightarrow> int option" where
  "Atoi s =
     (case s of
        [] \<Rightarrow> None
      | c # cs \<Rightarrow>
          (let ds = (if c = CHR ''-'' \<or> c = CHR ''+'' then cs else s)
           in if ds = [] then None
              else (case parse_digits 0 ds of
                      None \<Rightarrow> None
                    | Some n \<Rightarrow>
                        if c = CHR ''-''
                        then (if n \<le> 2 ^ 63 then Some (- int n) else None)
                        else (if n < 2 ^ 63 then Some (int n) else None))))"

function digits :: "nat \<Rightarrow> string" where
  "digits n =
     (if n < 10 then [''0123456789'' ! n]
      else digits (n div 10) @ [''0123456789'' ! (n mod 10)])"
  by pat_completeness auto
termination
  by (relation "measure id") auto

declare digits.simps [simp del]

definition Itoa :: "int \<Rightarrow> string" where
  "Itoa i = (if i < 0 then CHR ''-'' # digits (nat (- i)) else digits (nat i))"

section \<open>Labels (package docker, ParseLabels)\<close>

text \<open>
  The label map is a partial function from keys to values. The five keys are the string
  literals of the source, named here. The loop over the pieces of the dependency label
  has the body \<open>add_dep\<close>; the loop of the stop handler over the pieces of an
  \<open>ignore\<close> parameter has the same body.
\<close>

record ContainerLabels =
  Managed :: bool
  DependsOn :: "string list"
  DependsOnDelay :: int
  DependsOnHealthchecks :: bool
  ControllerEnabled :: bool

definition add_dep :: "string \<Rightarrow> string list \<Rightarrow> string list" where
  "add_dep dep acc = (let trimmed = TrimSpace dep in if trimmed \<noteq> [] then acc @ [trimmed] else acc)"

definition label_managed :: string where
  "label_managed = ''com.github.saltbox.saltbox_managed''"

definition label_controller :: string where
  "label_controller = ''com.github.saltbox.saltbox_controller''"

definition label_depends_on :: string where
  "label_depends_on = ''com.github.saltbox.depends_on''"

definition label_delay :: string where
  "label_delay = ''com.github.saltbox.depends_on.delay''"

definition label_healthchecks :: string where
  "label_healthchecks = ''com.github.saltbox.depends_on.healthchecks''"

definition ParseLabels :: "(string \<rightharpoonup> string) \<Rightarrow> ContainerLabels" where
  "ParseLabels labels =
     (let parsed = \<lparr>Managed = False, DependsOn = [], DependsOnDelay = 0,
                     DependsOnHealthchecks = False, ControllerEnabled = True\<rparr>;
          parsed = (case labels label_managed of
                      Some managed \<Rightarrow> parsed\<lparr>Managed := (ToLower managed = ''true'')\<rparr>
                    | None \<Rightarrow> parsed);
          parsed = (case labels label_controller of
                      Some controller \<Rightarrow>
                        parsed\<lparr>ControllerEnabled := (ToLower controller \<noteq> ''false'')\<rparr>
                    | None \<Rightarrow> parsed);
          parsed = (case labels label_depends_on of
                      Some dependsOn \<Rightarrow>
                        if dependsOn \<noteq> []
                        then parsed\<lparr>DependsOn := fold add_dep (SplitSeq dependsOn) (DependsOn parsed)\<rparr>
                        else parsed
                    | None \<Rightarrow> parsed);
          parsed = (case labels label_delay of
                      Some delay \<Rightarrow>
                        (case Atoi delay of
                           Some delayInt \<Rightarrow>
                             if delayInt > 0 then parsed\<lparr>DependsOnDelay := delayInt\<rparr> else parsed
                         | None \<Rightarrow> parsed)
                    | None \<Rightarrow> parsed)
      in (case labels label_healthchecks of
            Some healthchecks \<Rightarrow>
              parsed\<lparr>DependsOnHealthchecks := (ToLower healthchecks = ''true'')\<rparr>
          | None \<Rightarrow> parsed))"

definition IsManaged :: "ContainerLabels \<Rightarrow> bool" where
  "IsManaged l = (Managed l \<and> ControllerEnabled l)"


lemma trim_left_stop: "space_width runes s = 0 \<Longrightarrow> trim_left runes s = s"
  by (simp add: trim_left.simps)

lemma trim_left_Nil [simp]: "trim_left runes [] = []"
  by (simp add: trim_left.simps)

lemma trim_left_go:
  "space_width runes (c # cs) = Suc n \<Longrightarrow> trim_left runes (c # cs) = trim_left runes (drop n cs)"
  by (subst trim_left.simps) simp


lemma space_width_Nil [simp]: "space_width runes [] = 0"
  by (induction runes) (auto elim: starts_with.elims)

lemma space_width_zero_iff:
  "[] \<notin> set runes \<Longrightarrow> space_width runes s = 0 \<longleftrightarrow> (\<forall>r \<in> set runes. \<not> starts_with s r)"
  by (induction runes) auto

lemma trim_left_no_space: "space_width runes (trim_left runes s) = 0"
proof (induction runes s rule: trim_left.induct)
  case (1 runes s)
  show ?case
  proof (cases "space_width runes s = 0 \<or> s = []")
    case True
    then show ?thesis by (auto simp: trim_left.simps)
  next
    case False
    then show ?thesis using 1 by (subst trim_left.simps) simp
  qed
qed

lemma trim_left_drop: "\<exists>n. trim_left runes s = drop n s"
proof (induction runes s rule: trim_left.induct)
  case (1 runes s)
  show ?case
  proof (cases "space_width runes s = 0 \<or> s = []")
    case True
    then have "trim_left runes s = drop 0 s" by (auto simp: trim_left.simps)
    then show ?thesis by blast
  next
    case False
    then obtain n where "trim_left runes (drop (space_width runes s) s) = drop n (drop (space_width runes s) s)"
      using 1 by blast
    then have "trim_left runes s = drop (n + space_width runes s) s"
      using False by (subst trim_left.simps) (simp add: add.commute)
    then show ?thesis by blast
  qed
qed

lemma starts_with_iff: "starts_with s r \<longleftrightarrow> take (length r) s = r"
  by (induction s r rule: starts_with.induct) auto

lemma starts_with_take: "starts_with (take k s) r \<Longrightarrow> starts_with s r"
  by (metis starts_with_iff append_eq_conv_conj append_take_drop_id append.assoc)

lemma rev_drop_rev: "rev (drop m (rev ys)) = take (length ys - m) ys"
  by (simp add: rev_drop)

lemma trim_both_take_drop: "\<exists>n k. trim_both runes s = take k (drop n s)"
proof -
  obtain n where n: "trim_left runes s = drop n s" using trim_left_drop by blast
  obtain m where m: "trim_left (map rev runes) (rev (drop n s)) = drop m (rev (drop n s))"
    using trim_left_drop by blast
  have "trim_both runes s = rev (drop m (rev (drop n s)))"
    by (simp add: trim_both_def n m)
  also have "\<dots> = take (length (drop n s) - m) (drop n s)"
    by (rule rev_drop_rev)
  finally show ?thesis by blast
qed

lemma set_trim_both: "set (trim_both runes s) \<subseteq> set s"
proof -
  obtain n k where "trim_both runes s = take k (drop n s)" using trim_both_take_drop by blast
  then show ?thesis by (metis set_take_subset set_drop_subset subset_trans)
qed

lemma trim_both_no_trailing:
  assumes "[] \<notin> set runes" "r \<in> set runes"
  shows "\<not> starts_with (rev (trim_both runes s)) (rev r)"
proof -
  have "space_width (map rev runes) (rev (trim_both runes s)) = 0"
    by (simp add: trim_both_def trim_left_no_space)
  moreover have "[] \<notin> set (map rev runes)" using assms(1) by auto
  ultimately show ?thesis using assms(2) by (simp add: space_width_zero_iff)
qed

lemma trim_both_no_leading:
  assumes "[] \<notin> set runes" "r \<in> set runes"
  shows "\<not> starts_with (trim_both runes s) r"
proof
  assume a: "starts_with (trim_both runes s) r"
  obtain m where m: "trim_left (map rev runes) (rev (trim_left runes s))
      = drop m (rev (trim_left runes s))"
    using trim_left_drop by blast
  have "trim_both runes s = take (length (trim_left runes s) - m) (trim_left runes s)"
    by (simp only: trim_both_def m rev_drop_rev)
  then have "starts_with (trim_left runes s) r" using a starts_with_take by metis
  moreover have "space_width runes (trim_left runes s) = 0" by (rule trim_left_no_space)
  ultimately show False using assms by (simp add: space_width_zero_iff)
qed

lemma SplitSeq_no_comma: "p \<in> set (SplitSeq s) \<Longrightarrow> CHR '','' \<notin> set p"
  by (induction s arbitrary: p) (auto split: if_splits list.splits)

lemma TrimSpace_Nil [simp]: "TrimSpace [] = []"
  by (simp add: TrimSpace_def trim_both_def)

lemma fold_add_dep:
  "fold add_dep xs acc = acc @ filter (\<lambda>d. d \<noteq> []) (map TrimSpace xs)"
  by (induction xs arbitrary: acc) (auto simp: add_dep_def Let_def)

lemma space_runes_nonempty: "[] \<notin> set space_runes"
  by (simp add: space_runes_def)

lemma ParseLabels_eq:
  "ParseLabels labels =
     \<lparr>Managed = (case labels label_managed of
                    None \<Rightarrow> False | Some v \<Rightarrow> ToLower v = ''true''),
      DependsOn = (case labels label_depends_on of
                     None \<Rightarrow> []
                   | Some v \<Rightarrow> filter (\<lambda>d. d \<noteq> []) (map TrimSpace (SplitSeq v))),
      DependsOnDelay = (case labels label_delay of
                          None \<Rightarrow> 0
                        | Some v \<Rightarrow> (case Atoi v of None \<Rightarrow> 0 | Some n \<Rightarrow> if n > 0 then n else 0)),
      DependsOnHealthchecks = (case labels label_healthchecks of
                                 None \<Rightarrow> False | Some v \<Rightarrow> ToLower v = ''true''),
      ControllerEnabled = (case labels label_controller of
                             None \<Rightarrow> True | Some v \<Rightarrow> ToLower v \<noteq> ''false'')\<rparr>"
  unfolding ParseLabels_def Let_def
    by (cases "labels label_managed";
        cases "labels label_controller";
        cases "labels label_depends_on";
        cases "labels label_delay";
        cases "labels label_healthchecks")
       (simp_all add: fold_add_dep split: option.split)


text \<open>
  The dependency list as the specification words it: split on commas, ASCII white space
  trimmed, empty pieces dropped.
\<close>

definition DependsOn_ascii :: "string \<Rightarrow> string list" where
  "DependsOn_ascii v = filter (\<lambda>d. d \<noteq> []) (map TrimAscii (SplitSeq v))"

definition example_labels :: "string \<rightharpoonup> string" where
  "example_labels =
     [label_managed \<mapsto> ''TRUE'',
      label_controller \<mapsto> ''False'',
      label_depends_on \<mapsto> '' traefik , redis ,, postgres '',
      label_delay \<mapsto> ''-5'']"

definition nbsp_labels :: "string \<rightharpoonup> string" where
  "nbsp_labels = [label_depends_on \<mapsto> [CHR ''a'', CHR 0xC2, CHR 0xA0]]"

lemmas label_defs =
  label_managed_def label_controller_def label_depends_on_def label_delay_def
  label_healthchecks_def

lemmas trim_eval =
  TrimSpace_def TrimAscii_def trim_both_def space_runes_def ascii_space_runes_def
  trim_left_stop trim_left_go

text \<open>
  Claim C8, amended. \<open>ParseLabels\<close> is total, and its result is given field by field: a
  missing managed key gives \<open>False\<close>, a missing controller key gives \<open>True\<close> and only a
  value that is "false" up to case gives \<open>False\<close>; the booleans compare the lower-cased
  value; the delay is the value \<open>Atoi\<close> reads when it is positive and 0 otherwise, so it
  is never negative; the dependencies are the comma-separated pieces with white space
  trimmed by \<open>TrimSpace\<close> and the empty ones dropped. Every dependency is non-empty, has no
  comma, and neither starts nor ends with a white-space character, ASCII or not. The
  amendment: the trimming is of Unicode white space, not of ASCII white space only.
\<close>

theorem C8_ParseLabels:
  "ParseLabels labels =
     \<lparr>Managed = (case labels label_managed of
                    None \<Rightarrow> False | Some v \<Rightarrow> ToLower v = ''true''),
      DependsOn = (case labels label_depends_on of
                     None \<Rightarrow> []
                   | Some v \<Rightarrow> filter (\<lambda>d. d \<noteq> []) (map TrimSpace (SplitSeq v))),
      DependsOnDelay = (case labels label_delay of
                          None \<Rightarrow> 0
                        | Some v \<Rightarrow> (case Atoi v of None \<Rightarrow> 0 | Some n \<Rightarrow> if n > 0 then n else 0)),
      DependsOnHealthchecks = (case labels label_healthchecks of
                                 None \<Rightarrow> False | Some v \<Rightarrow> ToLower v = ''true''),
      ControllerEnabled = (case labels label_controller of
                             None \<Rightarrow> True | Some v \<Rightarrow> ToLower v \<noteq> ''false'')\<rparr>
   \<and> 0 \<le> DependsOnDelay (ParseLabels labels)
   \<and> (\<forall>d \<in> set (DependsOn (ParseLabels labels)).
         d \<noteq> [] \<and> CHR '','' \<notin> set d
         \<and> (\<forall>r \<in> set space_runes. \<not> starts_with d r \<and> \<not> starts_with (rev d) (rev r)))"
proof (intro conjI ballI)
  show "ParseLabels labels =
     \<lparr>Managed = (case labels label_managed of
                    None \<Rightarrow> False | Some v \<Rightarrow> ToLower v = ''true''),
      DependsOn = (case labels label_depends_on of
                     None \<Rightarrow> []
                   | Some v \<Rightarrow> filter (\<lambda>d. d \<noteq> []) (map TrimSpace (SplitSeq v))),
      DependsOnDelay = (case labels label_delay of
                          None \<Rightarrow> 0
                        | Some v \<Rightarrow> (case Atoi v of None \<Rightarrow> 0 | Some n \<Rightarrow> if n > 0 then n else 0)),
      DependsOnHealthchecks = (case labels label_healthchecks of
                                 None \<Rightarrow> False | Some v \<Rightarrow> ToLower v = ''true''),
      ControllerEnabled = (case labels label_controller of
                             None \<Rightarrow> True | Some v \<Rightarrow> ToLower v \<noteq> ''false'')\<rparr>"
    by (rule ParseLabels_eq)
  show "0 \<le> DependsOnDelay (ParseLabels labels)"
    by (simp add: ParseLabels_eq split: option.split)
next
  fix d assume d: "d \<in> set (DependsOn (ParseLabels labels))"
  then have "\<exists>v p. labels label_depends_on = Some v \<and> p \<in> set (SplitSeq v)
      \<and> d = TrimSpace p \<and> d \<noteq> []"
    by (cases "labels label_depends_on") (auto simp: ParseLabels_eq)
  then obtain v p where v: "labels label_depends_on = Some v" "p \<in> set (SplitSeq v)"
      "d = TrimSpace p" "d \<noteq> []"
    by blast
  show "d \<noteq> []" by (rule v(4))
  have "set d \<subseteq> set p" unfolding v(3) TrimSpace_def by (rule set_trim_both)
  then show "CHR '','' \<notin> set d" using SplitSeq_no_comma[OF v(2)] by blast
  fix r assume "r \<in> set space_runes"
  then show "\<not> starts_with d r" "\<not> starts_with (rev d) (rev r)"
    unfolding v(3) TrimSpace_def
    using trim_both_no_leading[OF space_runes_nonempty] trim_both_no_trailing[OF space_runes_nonempty]
    by blast+
qed

lemma example_lookups:
  "example_labels label_managed = Some ''TRUE''"
  "example_labels label_controller = Some ''False''"
  "example_labels label_depends_on = Some '' traefik , redis ,, postgres ''"
  "example_labels label_delay = Some ''-5''"
  "example_labels label_healthchecks = None"
  by (simp_all add: example_labels_def label_defs)

lemma example_values:
  "ToLower ''TRUE'' = ''true''" "ToLower ''False'' = ''false''" "Atoi ''-5'' = Some (- 5)"
  "filter (\<lambda>d. d \<noteq> []) (map TrimSpace (SplitSeq '' traefik , redis ,, postgres ''))
     = [''traefik'', ''redis'', ''postgres'']"
  by (simp_all add: ToLower_def lower_char_def Atoi_def digit_val_def trim_eval)

theorem C8_witness:
  "ParseLabels example_labels =
     \<lparr>Managed = True, DependsOn = [''traefik'', ''redis'', ''postgres''], DependsOnDelay = 0,
      DependsOnHealthchecks = False, ControllerEnabled = False\<rparr>"
  using C8_ParseLabels[of example_labels]
  by (simp only: example_lookups example_values option.case simp_thms if_False)
     simp

text \<open>
  The counterexample to C8 as stated: the dependency label "a" followed by a no-break
  space (U+00A0, the bytes C2 A0). \<open>ParseLabels\<close> returns the name "a"; trimming ASCII
  white space only keeps the three bytes.
\<close>

theorem C8_counterexample:
  "DependsOn (ParseLabels nbsp_labels) = [''a'']
   \<and> DependsOn_ascii [CHR ''a'', CHR 0xC2, CHR 0xA0] = [[CHR ''a'', CHR 0xC2, CHR 0xA0]]
   \<and> DependsOn (ParseLabels nbsp_labels) \<noteq> DependsOn_ascii [CHR ''a'', CHR 0xC2, CHR 0xA0]"
proof -
  have l: "nbsp_labels label_depends_on = Some [CHR ''a'', CHR 0xC2, CHR 0xA0]"
    by (simp add: nbsp_labels_def)
  have a: "DependsOn (ParseLabels nbsp_labels) = [''a'']"
    by (simp add: ParseLabels_eq l trim_eval)
  have b: "DependsOn_ascii [CHR ''a'', CHR 0xC2, CHR 0xA0] = [[CHR ''a'', CHR 0xC2, CHR 0xA0]]"
    by (simp add: DependsOn_ascii_def trim_eval)
  show ?thesis unfolding a b by simp
qed

section \<open>Job manager: submission and lookup (internal/jobs/manager.go)\<close>

text \<open>
  \<open>map_store m k v\<close> is the assignment \<open>m[k] = v\<close> on a Go map kept as an association
  list: the value of an existing key is replaced, a new key is added at the end.

  The manager's state: the registry, the ids of the jobs in the buffered queue (capacity
  100), and whether its context is cancelled. \<open>Submit\<close> returns \<open>None\<close> when the send on
  the full queue would block, which lasts until a worker receives or the context is
  cancelled; otherwise it returns the error, if any, and the new state.
\<close>

record Manager =
  jobs :: registry
  jobQueue :: "string list"
  ctxDone :: bool

definition map_store :: "('k \<times> 'v) list \<Rightarrow> 'k \<Rightarrow> 'v \<Rightarrow> ('k \<times> 'v) list" where
  "map_store m k v =
     (if k \<in> fst ` set m then map (\<lambda>kv. if fst kv = k then (k, v) else kv) m
      else m @ [(k, v)])"

definition Submit :: "Manager \<Rightarrow> Job \<Rightarrow> (string option \<times> Manager) option" where
  "Submit m job =
     (if ctxDone m then Some (Some ''job manager is shutting down'', m)
      else
        (let m1 = m\<lparr>jobs := map_store (jobs m) (ID job) job\<rparr>
         in if length (jobQueue m1) < 100
            then Some (None, m1\<lparr>jobQueue := jobQueue m1 @ [ID job]\<rparr>)
            else None))"

definition Get :: "Manager \<Rightarrow> string \<Rightarrow> string + Job" where
  "Get m k =
     (case map_of (jobs m) k of
        None \<Rightarrow> Inl (''job not found: '' @ k)
      | Some job \<Rightarrow> Inr job)"

section \<open>HTTP handlers (internal/api/handlers.go)\<close>

text \<open>
  A request carries the parsed query string, as the list of its key and value pairs in
  order, and the router's path parameters. A response is the status code and the fields
  of the JSON object written. The server's state is the blocked flag, the cancel function
  of the pending auto-unblock (identified by a number), the cancelled ones, and the job
  manager. A handler returns its response and the new state; the start and stop handlers
  return \<open>None\<close> when \<open>Submit\<close> blocks. The UUID of a new job, the clock and the identity
  of a new auto-unblock context are inputs. \<open>autoUnblock\<close> is the timer of a block firing.
  \<open>parse_timeout\<close> is the block of both handlers that reads the timeout, \<open>parse_ignore\<close>
  the loop of the stop handler over the \<open>ignore\<close> parameters, and \<open>submit_and_respond\<close>
  the end of both handlers, from the call of \<open>Submit\<close> on.
\<close>

record Request =
  query :: "(string \<times> string) list"
  urlParams :: "(string \<times> string) list"

record Response =
  code :: nat
  body :: "(string \<times> string) list"

record Server =
  isBlocked :: bool
  unblockCancel :: "nat option"
  cancelled :: "nat list"
  jobManager :: Manager

definition query_values :: "(string \<times> string) list \<Rightarrow> string \<Rightarrow> string list" where
  "query_values q key = map snd (filter (\<lambda>kv. fst kv = key) q)"

definition query_Get :: "(string \<times> string) list \<Rightarrow> string \<Rightarrow> string" where
  "query_Get q key = (case query_values q key of [] \<Rightarrow> [] | v # vs \<Rightarrow> v)"

definition URLParam :: "Request \<Rightarrow> string \<Rightarrow> string" where
  "URLParam r key = (case map_of (urlParams r) key of None \<Rightarrow> [] | Some v \<Rightarrow> v)"

definition writeJSON :: "nat \<Rightarrow> (string \<times> string) list \<Rightarrow> Response" where
  "writeJSON status data = \<lparr>code = status, body = data\<rparr>"

definition writeError :: "nat \<Rightarrow> string \<Rightarrow> Response" where
  "writeError status message = writeJSON status [(''error'', message)]"

definition parse_timeout :: "Request \<Rightarrow> int \<Rightarrow> int" where
  "parse_timeout r dflt =
     (let timeoutStr = query_Get (query r) ''timeout''
      in if timeoutStr \<noteq> []
         then (case Atoi timeoutStr of Some parsedTimeout \<Rightarrow> parsedTimeout | None \<Rightarrow> dflt)
         else dflt)"

definition parse_ignore :: "Request \<Rightarrow> string list" where
  "parse_ignore r =
     fold (\<lambda>param ignore. fold add_dep (SplitSeq param) ignore)
       (query_values (query r) ''ignore'') []"

definition submit_and_respond :: "Server \<Rightarrow> Job \<Rightarrow> (Response \<times> Server) option" where
  "submit_and_respond s job =
     (case Submit (jobManager s) job of
        None \<Rightarrow> None
      | Some (Some err, m) \<Rightarrow>
          Some (writeError 500 ''Failed to submit job'', s\<lparr>jobManager := m\<rparr>)
      | Some (None, m) \<Rightarrow>
          Some (writeJSON 200 [(''job_id'', ID job)], s\<lparr>jobManager := m\<rparr>))"

definition HandleStartContainers ::
  "Server \<Rightarrow> Request \<Rightarrow> string \<Rightarrow> Time \<Rightarrow> (Response \<times> Server) option" where
  "HandleStartContainers s r uuid now =
     (if isBlocked s then Some (writeError 503 ''Operation blocked'', s)
      else
        (let timeout = parse_timeout r 600;
             job = NewJob uuid now JobTypeStart timeout []
         in submit_and_respond s job))"

definition HandleStopContainers ::
  "Server \<Rightarrow> Request \<Rightarrow> string \<Rightarrow> Time \<Rightarrow> (Response \<times> Server) option" where
  "HandleStopContainers s r uuid now =
     (if isBlocked s then Some (writeError 503 ''Operation blocked'', s)
      else
        (let timeout = parse_timeout r 300;
             ignore = parse_ignore r;
             job = NewJob uuid now JobTypeStop timeout ignore
         in submit_and_respond s job))"

definition HandleGetJobStatus :: "Server \<Rightarrow> Request \<Rightarrow> Response \<times> Server" where
  "HandleGetJobStatus s r =
     (let jobID = URLParam r ''job_id''
      in case Get (jobManager s) jobID of
           Inl err \<Rightarrow> (writeJSON 404 [(''status'', ''not_found'')], s)
         | Inr job \<Rightarrow> (writeJSON 200 [(''status'', status_string (Status job))], s))"

definition HandleHealth :: "Server \<Rightarrow> Request \<Rightarrow> Response \<times> Server" where
  "HandleHealth s r = (writeJSON 200 [(''status'', ''healthy'')], s)"

definition HandleBlock :: "Server \<Rightarrow> Request \<Rightarrow> nat \<Rightarrow> Response \<times> Server" where
  "HandleBlock s r ctx =
     (let durationStr = URLParam r ''duration'';
          duration = (if durationStr \<noteq> []
                      then (case Atoi durationStr of Some parsedDuration \<Rightarrow> parsedDuration
                            | None \<Rightarrow> 10)
                      else 10);
          s1 = (case unblockCancel s of
                  Some c \<Rightarrow> s\<lparr>cancelled := c # cancelled s\<rparr>
                | None \<Rightarrow> s);
          s2 = s1\<lparr>isBlocked := True, unblockCancel := Some ctx\<rparr>
      in (writeJSON 200
            [(''message'', ''Operations are now blocked for '' @ Itoa duration @ '' minutes'')],
          s2))"

definition autoUnblock :: "Server \<Rightarrow> nat \<Rightarrow> Server" where
  "autoUnblock s ctx =
     (if ctx \<in> set (cancelled s) then s
      else s\<lparr>isBlocked := False, unblockCancel := None\<rparr>)"

definition HandleUnblock :: "Server \<Rightarrow> Request \<Rightarrow> Response \<times> Server" where
  "HandleUnblock s r =
     (let s1 = (case unblockCancel s of
                  Some c \<Rightarrow> s\<lparr>cancelled := c # cancelled s, unblockCancel := None\<rparr>
                | None \<Rightarrow> s);
          s2 = s1\<lparr>isBlocked := False\<rparr>
      in (writeJSON 200 [(''message'', ''Operations are now unblocked'')], s2))"

section \<open>Properties of the handlers\<close>

lemma parse_ignore_eq:
  "parse_ignore r =
     filter (\<lambda>d. d \<noteq> []) (map TrimSpace (concat (map SplitSeq (query_values (query r) ''ignore''))))"
proof -
  have "\<And>acc. fold (\<lambda>param ignore. fold add_dep (SplitSeq param) ignore) ps acc
      = acc @ filter (\<lambda>d. d \<noteq> []) (map TrimSpace (concat (map SplitSeq ps)))" for ps
    by (induction ps) (simp_all add: fold_add_dep)
  then show ?thesis by (simp add: parse_ignore_def)
qed

lemma map_of_replace:
  "k \<in> fst ` set m \<Longrightarrow> map_of (map (\<lambda>kv. if fst kv = k then (k, v) else kv) m) k = Some v"
  by (induction m) auto

lemma map_of_map_store: "map_of (map_store m k v) k = Some v"
proof (cases "k \<in> fst ` set m")
  case True
  then show ?thesis by (simp add: map_store_def map_of_replace)
next
  case False
  then have "map_of m k = None" by (simp add: map_of_eq_None_iff)
  then show ?thesis using False by (simp add: map_store_def map_add_def)
qed

lemma Submit_ok:
  assumes "\<not> ctxDone m" "length (jobQueue m) < 100"
  shows "\<exists>m'. Submit m job = Some (None, m') \<and> map_of (jobs m') (ID job) = Some job
           \<and> jobQueue m' = jobQueue m @ [ID job]"
  using assms by (simp add: Submit_def Let_def map_of_map_store)

text \<open>
  Claim C6. When the blocked flag is set, the start and the stop handler answer 503 with
  the error "Operation blocked" and leave the state, hence the registry and the queue,
  as it was; the health handler answers 200; the job status handler answers what it
  answers when not blocked, 200 or 404; the block and unblock handlers answer 200.
\<close>

theorem C6_blocked_requests_are_refused:
  assumes "isBlocked s"
  shows "HandleStartContainers s r uuid now
           = Some (\<lparr>code = 503, body = [(''error'', ''Operation blocked'')]\<rparr>, s)
       \<and> HandleStopContainers s r uuid now
           = Some (\<lparr>code = 503, body = [(''error'', ''Operation blocked'')]\<rparr>, s)
       \<and> HandleHealth s r = (\<lparr>code = 200, body = [(''status'', ''healthy'')]\<rparr>, s)
       \<and> fst (HandleGetJobStatus s r) = fst (HandleGetJobStatus (s\<lparr>isBlocked := False\<rparr>) r)
       \<and> code (fst (HandleGetJobStatus s r)) \<in> {200, 404}
       \<and> code (fst (HandleBlock s r ctx)) = 200 \<and> isBlocked (snd (HandleBlock s r ctx))
       \<and> code (fst (HandleUnblock s r)) = 200 \<and> \<not> isBlocked (snd (HandleUnblock s r))"
  using assms
  by (auto simp: HandleStartContainers_def HandleStopContainers_def HandleHealth_def
      HandleGetJobStatus_def HandleBlock_def HandleUnblock_def writeError_def writeJSON_def
      Let_def Get_def split: option.splits sum.splits)


text \<open>
  Two projections of a handler's outcome for the statements below: the response, and the
  job found under an id in the registry afterwards. Then a server that is not blocked, a
  blocked one, and a request.
\<close>

definition response :: "(Response \<times> Server) option \<Rightarrow> Response option" where
  "response out = (case out of None \<Rightarrow> None | Some (resp, s') \<Rightarrow> Some resp)"

definition registered :: "(Response \<times> Server) option \<Rightarrow> string \<Rightarrow> Job option" where
  "registered out k = (case out of None \<Rightarrow> None | Some (resp, s') \<Rightarrow> map_of (jobs (jobManager s')) k)"

definition idle_server :: Server where
  "idle_server =
     \<lparr>isBlocked = False, unblockCancel = None, cancelled = [],
      jobManager = \<lparr>jobs = [], jobQueue = [], ctxDone = False\<rparr>\<rparr>"

definition blocked_server :: Server where
  "blocked_server = idle_server\<lparr>isBlocked := True, unblockCancel := Some 0\<rparr>"

definition ignore_request :: Request where
  "ignore_request =
     \<lparr>query = [(''ignore'', ''traefik, nginx''), (''timeout'', ''45''), (''ignore'', '' ,redis'')],
      urlParams = []\<rparr>"

lemma parse_timeout_eq:
  "parse_timeout r d =
     (case query_values (query r) ''timeout'' of
        [] \<Rightarrow> d
      | v # vs \<Rightarrow> (if v = [] then d else (case Atoi v of None \<Rightarrow> d | Some t \<Rightarrow> t)))"
  by (simp add: parse_timeout_def query_Get_def Let_def split: list.splits option.splits)

lemma submit_and_respond_ok:
  assumes "\<not> ctxDone (jobManager s)" "length (jobQueue (jobManager s)) < 100"
  shows "response (submit_and_respond s job) = Some \<lparr>code = 200, body = [(''job_id'', ID job)]\<rparr>
       \<and> registered (submit_and_respond s job) (ID job) = Some job"
  using Submit_ok[OF assms, of job]
  by (auto simp: submit_and_respond_def response_def registered_def writeJSON_def)

lemma ID_NewJob [simp]: "ID (NewJob uuid now t timeout ignore) = uuid"
  by (simp add: NewJob_def)

text \<open>
  Claim C4, amended. When the server is not blocked and the manager accepts the job, the
  stop handler registers a job whose ignore list is the pieces of all the \<open>ignore\<close>
  parameters, in order, split on commas, trimmed and without the empty ones, and whose
  timeout is the \<open>timeout\<close> parameter read by \<open>Atoi\<close>, 300 when it is absent, empty or
  not an integer. The start handler registers a job with the timeout read the same way,
  600 by default, and with an empty ignore list: it does not read \<open>ignore\<close>.
\<close>

theorem C4_handlers_parse_query:
  assumes "\<not> isBlocked s" "\<not> ctxDone (jobManager s)" "length (jobQueue (jobManager s)) < 100"
  shows "response (HandleStopContainers s r uuid now)
           = Some \<lparr>code = 200, body = [(''job_id'', uuid)]\<rparr>
       \<and> registered (HandleStopContainers s r uuid now) uuid
           = Some (NewJob uuid now JobTypeStop (parse_timeout r 300)
                    (filter (\<lambda>d. d \<noteq> [])
                       (map TrimSpace (concat (map SplitSeq (query_values (query r) ''ignore''))))))
       \<and> response (HandleStartContainers s r uuid now)
           = Some \<lparr>code = 200, body = [(''job_id'', uuid)]\<rparr>
       \<and> registered (HandleStartContainers s r uuid now) uuid
           = Some (NewJob uuid now JobTypeStart (parse_timeout r 600) [])
       \<and> parse_timeout r 600
           = (case query_values (query r) ''timeout'' of
                [] \<Rightarrow> 600
              | v # vs \<Rightarrow> (if v = [] then 600 else (case Atoi v of None \<Rightarrow> 600 | Some t \<Rightarrow> t)))
       \<and> parse_timeout r 300
           = (case query_values (query r) ''timeout'' of
                [] \<Rightarrow> 300
              | v # vs \<Rightarrow> (if v = [] then 300 else (case Atoi v of None \<Rightarrow> 300 | Some t \<Rightarrow> t)))"
proof -
  let ?stop = "NewJob uuid now JobTypeStop (parse_timeout r 300) (parse_ignore r)"
  let ?start = "NewJob uuid now JobTypeStart (parse_timeout r 600) []"
  have "HandleStopContainers s r uuid now = submit_and_respond s ?stop"
    using assms(1) by (simp add: HandleStopContainers_def Let_def)
  moreover have "HandleStartContainers s r uuid now = submit_and_respond s ?start"
    using assms(1) by (simp add: HandleStartContainers_def Let_def)
  ultimately show ?thesis
    using submit_and_respond_ok[OF assms(2,3), of ?stop]
      submit_and_respond_ok[OF assms(2,3), of ?start]
    by (simp add: parse_ignore_eq parse_timeout_eq[symmetric])
qed

lemma ignore_request_values:
  "query_values (query ignore_request) ''ignore'' = [''traefik, nginx'', '' ,redis'']"
  "query_values (query ignore_request) ''timeout'' = [''45'']"
  by (simp_all add: ignore_request_def query_values_def)

lemma ignore_request_parsed:
  "TrimSpace ''traefik'' = ''traefik''" "TrimSpace '' nginx'' = ''nginx''"
  "TrimSpace '' '' = []" "TrimSpace ''redis'' = ''redis''"
  "Atoi ''45'' = Some 45"
  by (simp_all add: trim_eval Atoi_def digit_val_def)

lemma idle_server_props:
  "\<not> isBlocked idle_server" "\<not> ctxDone (jobManager idle_server)"
  "length (jobQueue (jobManager idle_server)) < 100"
  by (simp_all add: idle_server_def)

theorem C4_witness:
  "registered (HandleStopContainers idle_server ignore_request ''u1'' 7) ''u1''
     = Some (NewJob ''u1'' 7 JobTypeStop 45 [''traefik'', ''nginx'', ''redis''])
   \<and> registered (HandleStartContainers idle_server ignore_request ''u1'' 7) ''u1''
     = Some (NewJob ''u1'' 7 JobTypeStart 45 [])"
  using C4_handlers_parse_query[OF idle_server_props, of ignore_request "''u1''" 7]
  by (simp add: ignore_request_values ignore_request_parsed)

text \<open>
  The counterexample to C4 as stated: a start request with \<open>ignore\<close> parameters. The job
  the start handler registers has an empty ignore list, not the parsed one.
\<close>

theorem C4_counterexample:
  "parse_ignore ignore_request = [''traefik'', ''nginx'', ''redis'']
   \<and> registered (HandleStartContainers idle_server ignore_request ''u1'' 7) ''u1''
       = Some (NewJob ''u1'' 7 JobTypeStart 45 [])
   \<and> registered (HandleStartContainers idle_server ignore_request ''u1'' 7) ''u1''
       \<noteq> Some (NewJob ''u1'' 7 JobTypeStart 45 (parse_ignore ignore_request))"
proof -
  have p: "parse_ignore ignore_request = [''traefik'', ''nginx'', ''redis'']"
    by (simp add: parse_ignore_eq ignore_request_values ignore_request_parsed)
  have t: "parse_timeout ignore_request 600 = 45"
    by (simp add: parse_timeout_eq ignore_request_values ignore_request_parsed)
  have "HandleStartContainers idle_server ignore_request ''u1'' 7
          = submit_and_respond idle_server (NewJob ''u1'' 7 JobTypeStart 45 [])"
    by (simp add: HandleStartContainers_def Let_def t idle_server_props)
  then have r: "registered (HandleStartContainers idle_server ignore_request ''u1'' 7) ''u1''
       = Some (NewJob ''u1'' 7 JobTypeStart 45 [])"
    using submit_and_respond_ok[OF idle_server_props(2,3), of "NewJob ''u1'' 7 JobTypeStart 45 []"]
    by simp
  show ?thesis unfolding p r by (simp add: NewJob_def)
qed

lemma blocked_server_blocked: "isBlocked blocked_server"
  by (simp add: blocked_server_def)

theorem C6_witness:
  "isBlocked blocked_server
   \<and> HandleStartContainers blocked_server ignore_request ''u1'' 7
       = Some (\<lparr>code = 503, body = [(''error'', ''Operation blocked'')]\<rparr>, blocked_server)
   \<and> HandleStopContainers blocked_server ignore_request ''u1'' 7
       = Some (\<lparr>code = 503, body = [(''error'', ''Operation blocked'')]\<rparr>, blocked_server)
   \<and> jobs (jobManager blocked_server) = []
   \<and> code (fst (HandleUnblock blocked_server ignore_request)) = 200"
  using C6_blocked_requests_are_refused[OF blocked_server_blocked, of ignore_request "''u1''" 7 1]
  by (simp add: blocked_server_def idle_server_def)


section \<open>Dependency graph (internal/graph)\<close>

text \<open>
  Nodes refer to each other by pointer, and the algorithms write flags into the nodes, so
  the nodes live in a heap: a list of nodes, a pointer being an index into it. A graph
  is its \<open>Nodes\<close> map from name to pointer, an association list; the order of the list
  is the order in which a \<open>range\<close> over the map visits the entries, which Go leaves
  unspecified. Every function takes the heap and returns the new heap with its result.
  The fields of a node that the graph algorithms never read (ID, Labels, IsRunning, the
  start-up delay, the health-check flag and the stop timeout) are left out.

  The recursive closures \<open>dfs\<close>, \<open>visit\<close> and \<open>calculateDepth\<close> and the loop of
  \<open>findComponent\<close> take fuel: a bound on the depth of the recursion, or on the number of
  iterations. The result \<open>None\<close> says that the call does not return a value: the fuel ran
  out, or an index was out of range.
\<close>

type_synonym addr = nat

record Node =
  Name :: string
  IsPlaceholder :: bool
  Parents :: "addr list"
  Children :: "addr list"
  visited :: bool
  inStack :: bool
  sortIndex :: int

type_synonym heap = "Node list"
type_synonym Graph = "(string \<times> addr) list"

datatype graph_error = CircularDependency "string list" | NoContainersToSort

text \<open>
  Two shapes of loop over a slice: one that returns true as soon as its body does, and one
  that runs its body on every element.
\<close>

fun range_until :: "('s \<Rightarrow> 'a \<Rightarrow> (bool \<times> 's) option) \<Rightarrow> 's \<Rightarrow> 'a list \<Rightarrow> (bool \<times> 's) option" where
  "range_until f s [] = Some (False, s)"
| "range_until f s (x # xs) =
     (case f s x of
        None \<Rightarrow> None
      | Some (stop, s') \<Rightarrow> if stop then Some (True, s') else range_until f s' xs)"

fun range_all :: "('s \<Rightarrow> 'a \<Rightarrow> 's option) \<Rightarrow> 's \<Rightarrow> 'a list \<Rightarrow> 's option" where
  "range_all f s [] = Some s"
| "range_all f s (x # xs) = (case f s x of None \<Rightarrow> None | Some s' \<Rightarrow> range_all f s' xs)"

text \<open>
  The two reversal loops of the source: the swap of \<open>cycle[i]\<close> with
  \<open>cycle[len - 1 - i]\<close> for \<open>i < len / 2\<close>, and the fill of a new slice of the same
  length with \<open>out[len - 1 - i] = xs[i]\<close>.
\<close>

definition reverse_in_place :: "'a list \<Rightarrow> 'a list" where
  "reverse_in_place xs =
     fold (\<lambda>i ys. ys[i := ys ! (length ys - 1 - i), length ys - 1 - i := ys ! i])
       [0..<length xs div 2] xs"

definition reverse_fill :: "'a \<Rightarrow> 'a list \<Rightarrow> 'a list" where
  "reverse_fill nil xs =
     fold (\<lambda>i out. out[length xs - 1 - i := xs ! i]) [0..<length xs] (replicate (length xs) nil)"

subsection \<open>HasCycles and Validate (builder.go)\<close>

primrec dfs :: "nat \<Rightarrow> heap \<times> string list \<Rightarrow> addr \<Rightarrow> (bool \<times> heap \<times> string list) option" where
  "dfs 0 st node = None"
| "dfs (Suc fuel) st node =
     (case st of (h, cycle) \<Rightarrow>
        if inStack (h ! node) then Some (True, h, cycle @ [Name (h ! node)])
        else if visited (h ! node) then Some (False, h, cycle)
        else
          (case range_until (dfs fuel)
                  (h[node := (h ! node)\<lparr>visited := True, inStack := True\<rparr>], cycle)
                  (Children (h ! node)) of
             None \<Rightarrow> None
           | Some (found, h', cycle') \<Rightarrow>
               if found then Some (True, h', cycle' @ [Name (h' ! node)])
               else Some (False, h'[node := (h' ! node)\<lparr>inStack := False\<rparr>], cycle')))"

definition HasCycles :: "nat \<Rightarrow> Graph \<Rightarrow> heap \<Rightarrow> ((bool \<times> string list) \<times> heap) option" where
  "HasCycles fuel g h =
     (let h0 = fold (\<lambda>node h. h[node := (h ! node)\<lparr>visited := False, inStack := False\<rparr>])
                 (map snd g) h
      in case range_until
                (\<lambda>st node. if \<not> visited (fst st ! node) then dfs fuel st node
                            else Some (False, st))
                (h0, []) (map snd g) of
           None \<Rightarrow> None
         | Some (found, h', cycle) \<Rightarrow>
             if found then Some ((True, reverse_in_place cycle), h')
             else Some ((False, []), h'))"

definition Validate :: "nat \<Rightarrow> Graph \<Rightarrow> heap \<Rightarrow> (graph_error option \<times> heap) option" where
  "Validate fuel g h =
     (case HasCycles fuel g h of
        None \<Rightarrow> None
      | Some ((hasCycle, cycle), h') \<Rightarrow>
          if hasCycle then Some (Some (CircularDependency cycle), h') else Some (None, h'))"

subsection \<open>TopologicalSort and the batches (sort.go)\<close>

text \<open>
  \<open>visit\<close> never returns an error in the source, so the model has no error result for it.
  \<open>place_in_batch\<close> is the body of the loop that appends each node to the batch of its
  depth; an index outside the slice of batches is a panic.
\<close>

record SortedContainers =
  StartupOrder :: "addr list"
  ShutdownOrder :: "addr list"

primrec visit :: "nat \<Rightarrow> heap \<times> addr list \<times> int \<Rightarrow> addr \<Rightarrow> (heap \<times> addr list \<times> int) option" where
  "visit 0 st node = None"
| "visit (Suc fuel) st node =
     (case st of (h, sortedNodes, index) \<Rightarrow>
        if visited (h ! node) then Some (h, sortedNodes, index)
        else
          (case range_all (visit fuel) (h[node := (h ! node)\<lparr>visited := True\<rparr>], sortedNodes, index)
                  (Parents (h ! node)) of
             None \<Rightarrow> None
           | Some (h', sortedNodes', index') \<Rightarrow>
               if \<not> IsPlaceholder (h' ! node)
               then Some (h'[node := (h' ! node)\<lparr>sortIndex := index'\<rparr>], sortedNodes' @ [node],
                          index' + 1)
               else Some (h', sortedNodes', index')))"

definition TopologicalSort ::
  "nat \<Rightarrow> Graph \<Rightarrow> heap \<Rightarrow> ((graph_error + SortedContainers) \<times> heap) option" where
  "TopologicalSort fuel g h =
     (case Validate fuel g h of
        None \<Rightarrow> None
      | Some (Some err, h') \<Rightarrow> Some (Inl err, h')
      | Some (None, h') \<Rightarrow>
          (let h0 = fold (\<lambda>node h. h[node := (h ! node)\<lparr>visited := False, sortIndex := - 1\<rparr>])
                      (map snd g) h'
           in case range_all
                     (\<lambda>st node.
                        if \<not> visited (fst st ! node) \<and> \<not> IsPlaceholder (fst st ! node)
                        then visit fuel st node else Some st)
                     (h0, [], 0) (map snd g) of
                None \<Rightarrow> None
              | Some (h1, sortedNodes, index) \<Rightarrow>
                  if length sortedNodes = 0 then Some (Inl NoContainersToSort, h1)
                  else Some (Inr \<lparr>StartupOrder = sortedNodes,
                                   ShutdownOrder = reverse_fill 0 sortedNodes\<rparr>, h1)))"

primrec calculateDepth ::
  "nat \<Rightarrow> heap \<Rightarrow> (string \<rightharpoonup> int) \<Rightarrow> addr \<Rightarrow> (int \<times> (string \<rightharpoonup> int)) option" where
  "calculateDepth 0 h depths node = None"
| "calculateDepth (Suc fuel) h depths node =
     (case depths (Name (h ! node)) of
        Some depth \<Rightarrow> Some (depth, depths)
      | None \<Rightarrow>
          if Parents (h ! node) = [] then Some (0, depths(Name (h ! node) \<mapsto> 0))
          else
            (case range_all
                    (\<lambda>st parent.
                       if IsPlaceholder (h ! parent) then Some st
                       else (case calculateDepth fuel h (snd st) parent of
                               None \<Rightarrow> None
                             | Some (parentDepth, depths') \<Rightarrow>
                                 Some (if parentDepth > fst st then parentDepth else fst st,
                                       depths')))
                    (- 1, depths) (Parents (h ! node)) of
               None \<Rightarrow> None
             | Some (maxParentDepth, depths') \<Rightarrow>
                 Some (maxParentDepth + 1, depths'(Name (h ! node) \<mapsto> maxParentDepth + 1))))"

definition place_in_batch ::
  "heap \<Rightarrow> (string \<rightharpoonup> int) \<Rightarrow> addr list list option \<Rightarrow> addr \<Rightarrow> addr list list option" where
  "place_in_batch h depths batches node =
     (case batches of
        None \<Rightarrow> None
      | Some bs \<Rightarrow>
          (let depth = (case depths (Name (h ! node)) of None \<Rightarrow> 0 | Some d \<Rightarrow> d)
           in if 0 \<le> depth \<and> nat depth < length bs
              then Some (bs[nat depth := bs ! nat depth @ [node]])
              else None))"

definition GetStartupBatches ::
  "nat \<Rightarrow> Graph \<Rightarrow> heap \<Rightarrow> ((graph_error + addr list list) \<times> heap) option" where
  "GetStartupBatches fuel g h =
     (case TopologicalSort fuel g h of
        None \<Rightarrow> None
      | Some (Inl err, h') \<Rightarrow> Some (Inl err, h')
      | Some (Inr sortedNodes, h') \<Rightarrow>
          (case range_all
                  (\<lambda>st node.
                     case calculateDepth fuel h' (snd st) node of
                       None \<Rightarrow> None
                     | Some (depth, depths') \<Rightarrow>
                         Some (if depth > fst st then depth else fst st, depths'))
                  (0, Map.empty) (StartupOrder sortedNodes) of
             None \<Rightarrow> None
           | Some (maxDepth, depths) \<Rightarrow>
               (case fold (\<lambda>node batches. place_in_batch h' depths batches node)
                       (StartupOrder sortedNodes) (Some (replicate (nat (maxDepth + 1)) [])) of
                  None \<Rightarrow> None
                | Some batches \<Rightarrow> Some (Inr batches, h'))))"

definition GetShutdownBatches ::
  "nat \<Rightarrow> Graph \<Rightarrow> heap \<Rightarrow> ((graph_error + addr list list) \<times> heap) option" where
  "GetShutdownBatches fuel g h =
     (case GetStartupBatches fuel g h of
        None \<Rightarrow> None
      | Some (Inl err, h') \<Rightarrow> Some (Inl err, h')
      | Some (Inr startupBatches, h') \<Rightarrow> Some (Inr (reverse_fill [] startupBatches), h'))"

subsection \<open>Connected components (components.go)\<close>

text \<open>
  The stack of \<open>findComponent\<close> is a list whose last element is the top. The subgraph
  of a component is filled in the order of the component.
\<close>

record ComponentBatches =
  Batches :: "addr list list"

fun findComponent_loop ::
  "nat \<Rightarrow> heap \<Rightarrow> addr list \<Rightarrow> addr list \<Rightarrow> (addr list \<times> heap) option" where
  "findComponent_loop 0 h stack component = None"
| "findComponent_loop (Suc fuel) h stack component =
     (if stack = [] then Some (component, h)
      else
        (let node = last stack; stack1 = butlast stack
         in if visited (h ! node) \<or> IsPlaceholder (h ! node)
            then findComponent_loop fuel h stack1 component
            else
              (let h1 = h[node := (h ! node)\<lparr>visited := True\<rparr>];
                   stack2 = stack1
                     @ filter (\<lambda>parent. \<not> visited (h1 ! parent) \<and> \<not> IsPlaceholder (h1 ! parent))
                         (Parents (h1 ! node));
                   stack3 = stack2
                     @ filter (\<lambda>child. \<not> visited (h1 ! child) \<and> \<not> IsPlaceholder (h1 ! child))
                         (Children (h1 ! node))
               in findComponent_loop fuel h1 stack3 (component @ [node]))))"

definition findComponent :: "nat \<Rightarrow> heap \<Rightarrow> addr \<Rightarrow> (addr list \<times> heap) option" where
  "findComponent fuel h start = findComponent_loop fuel h [start] []"

definition getBatchesForComponent ::
  "nat \<Rightarrow> heap \<Rightarrow> addr list \<Rightarrow> ((graph_error + addr list list) \<times> heap) option" where
  "getBatchesForComponent fuel h component =
     GetStartupBatches fuel
       (fold (\<lambda>node subgraph. map_store subgraph (Name (h ! node)) node) component []) h"

fun components_loop ::
  "nat \<Rightarrow> addr list \<Rightarrow> heap \<Rightarrow> ComponentBatches list \<Rightarrow>
   ((graph_error + ComponentBatches list) \<times> heap) option" where
  "components_loop fuel [] h components = Some (Inr components, h)"
| "components_loop fuel (node # nodes) h components =
     (if \<not> visited (h ! node) \<and> \<not> IsPlaceholder (h ! node)
      then
        (case findComponent fuel h node of
           None \<Rightarrow> None
         | Some (component, h1) \<Rightarrow>
             if length component > 0
             then
               (case getBatchesForComponent fuel h1 component of
                  None \<Rightarrow> None
                | Some (Inl err, h2) \<Rightarrow> Some (Inl err, h2)
                | Some (Inr batches, h2) \<Rightarrow>
                    components_loop fuel nodes h2 (components @ [\<lparr>Batches = batches\<rparr>]))
             else components_loop fuel nodes h1 components)
      else components_loop fuel nodes h components)"

definition GetConnectedComponents ::
  "nat \<Rightarrow> Graph \<Rightarrow> heap \<Rightarrow> ((graph_error + ComponentBatches list) \<times> heap) option" where
  "GetConnectedComponents fuel g h =
     components_loop fuel (map snd g)
       (fold (\<lambda>node h. h[node := (h ! node)\<lparr>visited := False\<rparr>]) (map snd g) h) []"

definition GetConnectedComponentsForShutdown ::
  "nat \<Rightarrow> Graph \<Rightarrow> heap \<Rightarrow> ((graph_error + ComponentBatches list) \<times> heap) option" where
  "GetConnectedComponentsForShutdown fuel g h =
     (case GetConnectedComponents fuel g h of
        None \<Rightarrow> None
      | Some (Inl err, h') \<Rightarrow> Some (Inl err, h')
      | Some (Inr components, h') \<Rightarrow>
          Some (Inr (map (\<lambda>comp. \<lparr>Batches = reverse_fill [] (Batches comp)\<rparr>) components), h'))"

subsection \<open>Nodes and the builder (types.go, builder.go)\<close>

text \<open>
  A container summary is its names and its labels. \<open>summary_name\<close> is the name of the
  node: the first name without its leading slash; a summary with no name makes the source
  panic, and \<open>Build\<close> return \<open>None\<close>. \<open>build_node\<close> is the body of the first pass,
  \<open>build_edges\<close> the body of the second, \<open>build_dependency\<close> the body of its inner loop.
\<close>

definition NewNode :: "string \<Rightarrow> Node" where
  "NewNode name =
     \<lparr>Name = name, IsPlaceholder = False, Parents = [], Children = [],
      visited = False, inStack = False, sortIndex = - 1\<rparr>"

definition NewPlaceholderNode :: "string \<Rightarrow> Node" where
  "NewPlaceholderNode name =
     \<lparr>Name = name, IsPlaceholder = True, Parents = [], Children = [],
      visited = False, inStack = False, sortIndex = - 1\<rparr>"

definition AddParent :: "heap \<Rightarrow> addr \<Rightarrow> addr \<Rightarrow> heap" where
  "AddParent h n parent =
     (let h1 = h[n := (h ! n)\<lparr>Parents := Parents (h ! n) @ [parent]\<rparr>]
      in h1[parent := (h1 ! parent)\<lparr>Children := Children (h1 ! parent) @ [n]\<rparr>])"

text \<open>
  Concrete inputs: the diamond of the tests, and three lists of containers that all carry
  the managed label, some with the controller label set to "false".
\<close>

definition diamond_heap :: heap where
  "diamond_heap =
     AddParent (AddParent (AddParent (AddParent
       [NewNode ''a'', NewNode ''b'', NewNode ''c'', NewNode ''d''] 1 0) 2 0) 3 1) 3 2"

definition diamond :: Graph where
  "diamond = [(''a'', 0), (''b'', 1), (''c'', 2), (''d'', 3)]"


record Summary =
  Names :: "string list"
  Labels :: "string \<rightharpoonup> string"

definition summary_name :: "Summary \<Rightarrow> string option" where
  "summary_name c =
     (case Names c of
        [] \<Rightarrow> None
      | name # rest \<Rightarrow>
          Some (if length name > 0 \<and> name ! 0 = CHR ''/'' then drop 1 name else name))"

definition build_node :: "(Graph \<times> heap) option \<Rightarrow> Summary \<Rightarrow> (Graph \<times> heap) option" where
  "build_node st c =
     (case st of
        None \<Rightarrow> None
      | Some (graph, h) \<Rightarrow>
          (case summary_name c of
             None \<Rightarrow> None
           | Some name \<Rightarrow>
               if \<not> IsManaged (ParseLabels (Labels c)) then Some (graph, h)
               else Some (map_store graph name (length h), h @ [NewNode name])))"

definition build_dependency :: "addr \<Rightarrow> string \<Rightarrow> Graph \<times> heap \<Rightarrow> Graph \<times> heap" where
  "build_dependency node depName st =
     (case st of (graph, h) \<Rightarrow>
        (case map_of graph depName of
           None \<Rightarrow>
             (map_store graph depName (length h),
              AddParent (h @ [NewPlaceholderNode depName]) node (length h))
         | Some parent \<Rightarrow> (graph, AddParent h node parent)))"

definition build_edges :: "(Graph \<times> heap) option \<Rightarrow> Summary \<Rightarrow> (Graph \<times> heap) option" where
  "build_edges st c =
     (case st of
        None \<Rightarrow> None
      | Some (graph, h) \<Rightarrow>
          (case summary_name c of
             None \<Rightarrow> None
           | Some name \<Rightarrow>
               (case map_of graph name of
                  None \<Rightarrow> Some (graph, h)
                | Some node \<Rightarrow>
                    Some (fold (build_dependency node) (DependsOn (ParseLabels (Labels c)))
                            (graph, h)))))"

definition Build :: "Summary list \<Rightarrow> (Graph \<times> heap) option" where
  "Build containers = fold (\<lambda>c st. build_edges st c) containers
                        (fold (\<lambda>c st. build_node st c) containers (Some ([], [])))"

definition container :: "string \<Rightarrow> bool \<Rightarrow> string \<Rightarrow> Summary" where
  "container name enabled deps =
     \<lparr>Names = [CHR ''/'' # name],
      Labels = [label_managed \<mapsto> ''true'',
                label_controller \<mapsto> (if enabled then ''true'' else ''false''),
                label_depends_on \<mapsto> deps]\<rparr>"

definition c1_containers :: "Summary list" where
  "c1_containers =
     [container ''x'' True ''b'', container ''b'' False ''p'', container ''p'' True [],
      container ''n'' True ''p'']"

definition c2_containers :: "Summary list" where
  "c2_containers =
     [container ''x'' True ''b'', container ''b'' False ''p'', container ''p'' True ''c'',
      container ''c'' False ''p'']"


subsection \<open>The orchestrator up to the first container action (orchestrator.go)\<close>

text \<open>
  \<open>StartContainers\<close> and \<open>StopContainers\<close> list the containers, build the graph and ask
  for the components; an error of one of these steps is returned before any container is
  started or stopped. \<open>StartContainers_plan\<close> and \<open>StopContainers_plan\<close> are these steps:
  the result is the error text, or the components whose batches are then executed. The
  listing is an input. \<open>error_text\<close> is the text of a graph error, with the cycle printed
  as \<open>%v\<close> prints a slice of strings.
\<close>

fun join_names :: "string list \<Rightarrow> string" where
  "join_names [] = []"
| "join_names [x] = x"
| "join_names (x # y # ys) = x @ '' '' @ join_names (y # ys)"

fun error_text :: "graph_error \<Rightarrow> string" where
  "error_text (CircularDependency cycle) =
     ''circular dependency detected: ['' @ join_names cycle @ '']''"
| "error_text NoContainersToSort = ''no containers to sort''"

definition StartContainers_plan ::
  "nat \<Rightarrow> string + Summary list \<Rightarrow> (string + ComponentBatches list) option" where
  "StartContainers_plan fuel listing =
     (case listing of
        Inl err \<Rightarrow> Some (Inl (''failed to list containers: '' @ err))
      | Inr containers \<Rightarrow>
          (case Build containers of
             None \<Rightarrow> None
           | Some (g, h) \<Rightarrow>
               (case GetConnectedComponents fuel g h of
                  None \<Rightarrow> None
                | Some (Inl err, h') \<Rightarrow>
                    Some (Inl (''failed to identify connected components: '' @ error_text err))
                | Some (Inr components, h') \<Rightarrow> Some (Inr components))))"

definition StopContainers_plan ::
  "nat \<Rightarrow> string + Summary list \<Rightarrow> (string + ComponentBatches list) option" where
  "StopContainers_plan fuel listing =
     (case listing of
        Inl err \<Rightarrow> Some (Inl (''failed to list containers: '' @ err))
      | Inr containers \<Rightarrow>
          (case Build containers of
             None \<Rightarrow> None
           | Some (g, h) \<Rightarrow>
               (case GetConnectedComponentsForShutdown fuel g h of
                  None \<Rightarrow> None
                | Some (Inl err, h') \<Rightarrow>
                    Some (Inl (''failed to identify connected components: '' @ error_text err))
                | Some (Inr components, h') \<Rightarrow> Some (Inr components))))"

definition c1_graph :: Graph where
  "c1_graph = [(''x'', 0), (''p'', 1), (''n'', 2), (''b'', 3)]"

definition c1_heap :: heap where
  "c1_heap =
   [\<lparr>Name = ''x'', IsPlaceholder = False, Parents = [3], Children = [],
       visited = False, inStack = False, sortIndex = - 1\<rparr>,
    \<lparr>Name = ''p'', IsPlaceholder = False, Parents = [], Children = [3, 2],
       visited = False, inStack = False, sortIndex = - 1\<rparr>,
    \<lparr>Name = ''n'', IsPlaceholder = False, Parents = [1], Children = [],
       visited = False, inStack = False, sortIndex = - 1\<rparr>,
    \<lparr>Name = ''b'', IsPlaceholder = True, Parents = [1], Children = [0],
       visited = False, inStack = False, sortIndex = - 1\<rparr>]"

definition c3_containers :: "Summary list" where
  "c3_containers =
     [container ''x'' True ''b'', container ''b'' False ''p'', container ''p'' True ''q'',
      container ''q'' True ''p'']"

definition c2_graph :: Graph where
  "c2_graph = [(''x'', 0), (''p'', 1), (''b'', 2), (''c'', 3)]"

definition c2_heap :: heap where
  "c2_heap =
   [\<lparr>Name = ''x'', IsPlaceholder = False, Parents = [2], Children = [],
       visited = False, inStack = False, sortIndex = - 1\<rparr>,
    \<lparr>Name = ''p'', IsPlaceholder = False, Parents = [3], Children = [2, 3],
       visited = False, inStack = False, sortIndex = - 1\<rparr>,
    \<lparr>Name = ''b'', IsPlaceholder = True, Parents = [1], Children = [0],
       visited = False, inStack = False, sortIndex = - 1\<rparr>,
    \<lparr>Name = ''c'', IsPlaceholder = True, Parents = [1], Children = [1],
       visited = False, inStack = False, sortIndex = - 1\<rparr>]"

definition c3_graph :: Graph where
  "c3_graph = [(''x'', 0), (''p'', 1), (''q'', 2), (''b'', 3)]"

definition c3_heap :: heap where
  "c3_heap =
   [\<lparr>Name = ''x'', IsPlaceholder = False, Parents = [3], Children = [],
       visited = False, inStack = False, sortIndex = - 1\<rparr>,
    \<lparr>Name = ''p'', IsPlaceholder = False, Parents = [2], Children = [3, 2],
       visited = False, inStack = False, sortIndex = - 1\<rparr>,
    \<lparr>Name = ''q'', IsPlaceholder = False, Parents = [1], Children = [1],
       visited = False, inStack = False, sortIndex = - 1\<rparr>,
    \<lparr>Name = ''b'', IsPlaceholder = True, Parents = [1], Children = [0],
       visited = False, inStack = False, sortIndex = - 1\<rparr>]"

text \<open>
  A graph of two placeholders, a the parent of b: no container is behind either name.
\<close>

definition chain_graph :: Graph where
  "chain_graph = [(''a'', 0), (''b'', 1)]"

definition chain_heap :: heap where
  "chain_heap = AddParent [NewPlaceholderNode ''a'', NewPlaceholderNode ''b''] 1 0"


subsection \<open>Reversal\<close>

lemma reverse_fill_steps:
  "k \<le> length xs \<Longrightarrow>
   fold (\<lambda>i out. out[length xs - 1 - i := xs ! i]) [0..<k] (replicate (length xs) nil)
     = replicate (length xs - k) nil @ rev (take k xs)"
proof (induction k)
  case 0
  then show ?case by simp
next
  case (Suc k)
  then have k: "k < length xs" by simp
  let ?n = "length xs"
  have "fold (\<lambda>i out. out[?n - 1 - i := xs ! i]) [0..<Suc k] (replicate ?n nil)
      = (replicate (?n - k) nil @ rev (take k xs))[?n - 1 - k := xs ! k]"
    using Suc by simp
  also have "\<dots> = (replicate (?n - k) nil)[?n - 1 - k := xs ! k] @ rev (take k xs)"
  proof -
    have "?n - 1 - k < length (replicate (?n - k) nil)" using k by simp
    then show ?thesis by (simp only: list_update_append if_True)
  qed
  also have "replicate (?n - k) nil = replicate (?n - Suc k) nil @ [nil]"
    using k by (metis Suc_diff_Suc replicate_Suc replicate_append_same)
  also have "(replicate (?n - Suc k) nil @ [nil])[?n - 1 - k := xs ! k]
      = replicate (?n - Suc k) nil @ [xs ! k]"
    by (simp add: list_update_append)
  finally show ?case using k by (simp add: take_Suc_conv_app_nth)
qed

lemma reverse_fill_rev: "reverse_fill nil xs = rev xs"
  using reverse_fill_steps[of "length xs" xs nil] by (simp add: reverse_fill_def)

text \<open>
  Claim C7. Whatever the graph, \<open>GetConnectedComponentsForShutdown\<close> returns what
  \<open>GetConnectedComponents\<close> returns with the list of batches of every component
  reversed, each batch unchanged, and the same error or absence of result otherwise;
  likewise \<open>GetShutdownBatches\<close> and \<open>GetStartupBatches\<close>.
\<close>

theorem C7_shutdown_batches_are_reversed:
  "GetConnectedComponentsForShutdown fuel g h =
     (case GetConnectedComponents fuel g h of
        None \<Rightarrow> None
      | Some (Inl err, h') \<Rightarrow> Some (Inl err, h')
      | Some (Inr components, h') \<Rightarrow>
          Some (Inr (map (\<lambda>comp. \<lparr>Batches = rev (Batches comp)\<rparr>) components), h'))
   \<and> GetShutdownBatches fuel g h =
     (case GetStartupBatches fuel g h of
        None \<Rightarrow> None
      | Some (Inl err, h') \<Rightarrow> Some (Inl err, h')
      | Some (Inr startupBatches, h') \<Rightarrow> Some (Inr (rev startupBatches), h'))"
  by (simp add: GetConnectedComponentsForShutdown_def GetShutdownBatches_def reverse_fill_rev
      split: option.split prod.split sum.split)

subsection \<open>The cycle check returns\<close>

text \<open>
  \<open>ptrs_ok\<close>: every child pointer points into the heap. \<open>same_graph\<close>: two heaps hold
  the same nodes up to the flags. \<open>unvisited\<close>: the nodes not yet marked. \<open>dfs\<close> marks a
  node before it descends, so fuel above the number of unmarked nodes is enough.
\<close>

definition ptrs_ok :: "heap \<Rightarrow> bool" where
  "ptrs_ok h = (\<forall>i<length h. \<forall>c \<in> set (Children (h ! i)). c < length h)"

definition same_graph :: "heap \<Rightarrow> heap \<Rightarrow> bool" where
  "same_graph h h' =
     (length h' = length h
      \<and> (\<forall>i<length h. Name (h' ! i) = Name (h ! i) \<and> IsPlaceholder (h' ! i) = IsPlaceholder (h ! i)
            \<and> Parents (h' ! i) = Parents (h ! i) \<and> Children (h' ! i) = Children (h ! i)))"

definition unvisited :: "heap \<Rightarrow> nat set" where
  "unvisited h = {i. i < length h \<and> \<not> visited (h ! i)}"

definition grows :: "heap \<Rightarrow> heap \<Rightarrow> bool" where
  "grows h h' = (same_graph h h' \<and> unvisited h' \<subseteq> unvisited h)"

lemma same_graph_refl [simp]: "same_graph h h"
  by (simp add: same_graph_def)

lemma same_graph_trans: "same_graph h h1 \<Longrightarrow> same_graph h1 h2 \<Longrightarrow> same_graph h h2"
  by (simp add: same_graph_def)

lemma grows_refl [simp]: "grows h h"
  by (simp add: grows_def)

lemma grows_trans: "grows h h1 \<Longrightarrow> grows h1 h2 \<Longrightarrow> grows h h2"
  unfolding grows_def using same_graph_trans by blast

lemma same_graph_ptrs_ok: "same_graph h h' \<Longrightarrow> ptrs_ok h \<Longrightarrow> ptrs_ok h'"
  by (simp add: same_graph_def ptrs_ok_def)

lemma finite_unvisited [simp]: "finite (unvisited h)"
  by (simp add: unvisited_def)

lemma card_unvisited_le: "card (unvisited h) \<le> length h"
proof -
  have "unvisited h \<subseteq> {..<length h}" by (auto simp: unvisited_def)
  then have "card (unvisited h) \<le> card {..<length h}" by (intro card_mono) auto
  then show ?thesis by simp
qed

lemma nth_update_if: "h[a := n] ! i = (if i = a \<and> a < length h then n else h ! i)"
  by (cases "a < length h") (auto simp: nth_list_update list_update_beyond not_less)

lemma same_graph_update:
  assumes "Name n = Name (h ! a)" "IsPlaceholder n = IsPlaceholder (h ! a)"
    "Parents n = Parents (h ! a)" "Children n = Children (h ! a)"
  shows "same_graph h (h[a := n])"
  using assms by (auto simp: same_graph_def nth_update_if)

lemma range_until_returns:
  assumes "\<And>s x. P s \<Longrightarrow> x \<in> set xs \<Longrightarrow> \<exists>b s'. f s x = Some (b, s') \<and> P s'"
    and "P s"
  shows "\<exists>b s'. range_until f s xs = Some (b, s') \<and> P s'"
  using assms
proof (induction xs arbitrary: s)
  case Nil
  then show ?case by auto
next
  case (Cons x xs)
  have "x \<in> set (x # xs)" by simp
  from Cons.prems(1)[OF Cons.prems(2) this] obtain b s1 where
    s1: "f s x = Some (b, s1)" "P s1" by blast
  show ?case
  proof (cases b)
    case True
    then show ?thesis using s1 by auto
  next
    case False
    have "\<exists>b s'. range_until f s1 xs = Some (b, s') \<and> P s'"
      using Cons.IH[OF _ s1(2)] Cons.prems(1) by auto
    then show ?thesis using s1 False by simp
  qed
qed

lemma mark_visited_card:
  assumes "a < length h" "\<not> visited (h ! a)" "visited n"
  shows "card (unvisited (h[a := n])) < card (unvisited h)"
proof -
  have "unvisited (h[a := n]) \<subseteq> unvisited h - {a}"
    using assms by (auto simp: unvisited_def nth_update_if split: if_splits)
  moreover have "a \<in> unvisited h" using assms by (simp add: unvisited_def)
  ultimately have "unvisited (h[a := n]) \<subset> unvisited h" by blast
  then show ?thesis by (intro psubset_card_mono) auto
qed

lemma dfs_returns:
  "ptrs_ok h \<Longrightarrow> a < length h \<Longrightarrow> card (unvisited h) < fuel \<Longrightarrow>
   \<exists>found h' cycle'. dfs fuel (h, cycle) a = Some (found, h', cycle') \<and> grows h h'"
proof (induction fuel arbitrary: h a cycle)
  case 0
  then show ?case by simp
next
  case (Suc fuel)
  show ?case
  proof (cases "inStack (h ! a) \<or> visited (h ! a)")
    case True
    then show ?thesis by auto
  next
    case False
    let ?h1 = "h[a := (h ! a)\<lparr>visited := True, inStack := True\<rparr>]"
    have sg1: "same_graph h ?h1" by (rule same_graph_update) simp_all
    have card1: "card (unvisited ?h1) < card (unvisited h)"
      using Suc.prems(2) False by (intro mark_visited_card) simp_all
    have g1: "grows h ?h1"
      using sg1 card1 Suc.prems(2) by (auto simp: grows_def unvisited_def nth_update_if)
    have ok1: "ptrs_ok ?h1" using sg1 Suc.prems(1) by (rule same_graph_ptrs_ok)
    define P where "P = (\<lambda>st :: heap \<times> string list. grows ?h1 (fst st))"
    have step: "\<exists>b s'. dfs fuel s x = Some (b, s') \<and> P s'"
      if "P s" "x \<in> set (Children (h ! a))" for s x
    proof -
      obtain hs cs where s: "s = (hs, cs)" by (cases s)
      have gs: "grows ?h1 hs" using that(1) by (simp add: P_def s)
      then have "ptrs_ok hs" using ok1 same_graph_ptrs_ok by (auto simp: grows_def)
      moreover have "x < length hs"
        using that(2) Suc.prems(1,2) gs by (auto simp: ptrs_ok_def grows_def same_graph_def)
      moreover have "card (unvisited hs) < fuel"
      proof -
        have "card (unvisited hs) \<le> card (unvisited ?h1)"
          using gs by (auto simp: grows_def intro: card_mono)
        then show ?thesis using card1 Suc.prems(3) by simp
      qed
      ultimately obtain found h' cycle' where
        r: "dfs fuel (hs, cs) x = Some (found, h', cycle')" "grows hs h'"
        using Suc.IH[of hs x cs] by blast
      then have "P (h', cycle')" using gs grows_trans by (auto simp: P_def)
      then show ?thesis using r s by auto
    qed
    have "P (?h1, cycle)" by (simp add: P_def)
    from range_until_returns[where P = P and f = "dfs fuel", OF step this]
    obtain b s' where r: "range_until (dfs fuel) (?h1, cycle) (Children (h ! a)) = Some (b, s')"
      and Ps: "P s'" by blast
    obtain h2 c2 where s': "s' = (h2, c2)" by (cases s')
    have g2: "grows ?h1 h2" using Ps by (simp add: P_def s')
    have g3: "grows h2 (h2[a := (h2 ! a)\<lparr>inStack := False\<rparr>])"
      by (auto simp: grows_def unvisited_def nth_update_if intro!: same_graph_update)
    show ?thesis
    proof (cases b)
      case True
      then show ?thesis using False r s' g1 g2 grows_trans by auto
    next
      case False': False
      have "grows h (h2[a := (h2 ! a)\<lparr>inStack := False\<rparr>])"
        using g1 g2 g3 grows_trans by blast
      then show ?thesis using False r s' False' by auto
    qed
  qed
qed


lemma same_graph_reset:
  assumes "\<And>n. Name (f n) = Name n" "\<And>n. IsPlaceholder (f n) = IsPlaceholder n"
    "\<And>n. Parents (f n) = Parents n" "\<And>n. Children (f n) = Children n"
  shows "same_graph h (fold (\<lambda>node h. h[node := f (h ! node)]) nodes h)"
proof (induction nodes arbitrary: h)
  case Nil
  then show ?case by simp
next
  case (Cons a nodes)
  have "same_graph h (h[a := f (h ! a)])"
    by (rule same_graph_update) (simp_all add: assms)
  moreover have "same_graph (h[a := f (h ! a)])
      (fold (\<lambda>node h. h[node := f (h ! node)]) nodes (h[a := f (h ! a)]))"
    by (rule Cons.IH)
  ultimately have "same_graph h
      (fold (\<lambda>node h. h[node := f (h ! node)]) nodes (h[a := f (h ! a)]))"
    by (rule same_graph_trans)
  then show ?case by simp
qed

lemma range_all_unchanged:
  "(\<And>x. x \<in> set xs \<Longrightarrow> f s x = Some s) \<Longrightarrow> range_all f s xs = Some s"
  by (induction xs) simp_all

lemma HasCycles_returns:
  assumes "ptrs_ok h" "\<forall>a \<in> set (map snd g). a < length h" "length h < fuel"
  shows "\<exists>r h'. HasCycles fuel g h = Some (r, h') \<and> same_graph h h'"
proof -
  let ?h0 = "fold (\<lambda>node h. h[node := (h ! node)\<lparr>visited := False, inStack := False\<rparr>])
               (map snd g) h"
  let ?body = "\<lambda>st node. if \<not> visited (fst st ! node) then dfs fuel st node
                            else Some (False, st)"
  have sg0: "same_graph h ?h0" by (rule same_graph_reset) simp_all
  then have ok0: "ptrs_ok ?h0" using assms(1) by (rule same_graph_ptrs_ok)
  define P where "P = (\<lambda>st :: heap \<times> string list. grows ?h0 (fst st))"
  have step: "\<exists>b s'. ?body s x = Some (b, s') \<and> P s'" if "P s" "x \<in> set (map snd g)" for s x
  proof (cases "visited (fst s ! x)")
    case True
    then show ?thesis using that(1) by auto
  next
    case False
    obtain hs cs where s: "s = (hs, cs)" by (cases s)
    have gs: "grows ?h0 hs" using that(1) by (simp add: P_def s)
    then have len: "length hs = length h" using sg0 by (simp add: grows_def same_graph_def)
    have "ptrs_ok hs" using gs ok0 same_graph_ptrs_ok by (auto simp: grows_def)
    moreover have "x < length hs" using that(2) assms(2) len by auto
    moreover have "card (unvisited hs) < fuel"
      using card_unvisited_le[of hs] len assms(3) by simp
    ultimately obtain found h' cycle' where
      r: "dfs fuel (hs, cs) x = Some (found, h', cycle')" "grows hs h'"
      using dfs_returns[of hs x fuel cs] by blast
    then have "P (h', cycle')" using gs grows_trans by (auto simp: P_def)
    then show ?thesis using r s False by auto
  qed
  have "P (?h0, [])" by (simp add: P_def)
  from range_until_returns[where P = P and f = ?body, OF step this]
  obtain b s' where r: "range_until ?body (?h0, []) (map snd g) = Some (b, s')" and Ps: "P s'"
    by blast
  obtain h1 c1 where s': "s' = (h1, c1)" by (cases s')
  have "same_graph h h1" using Ps sg0 same_graph_trans by (auto simp: P_def s' grows_def)
  then show ?thesis using r s' by (cases b) (auto simp: HasCycles_def)
qed

lemma dfs_Suc_fresh:
  assumes "\<not> inStack (h ! a)" "\<not> visited (h ! a)"
    and "range_until (dfs fuel) (h[a := (h ! a)\<lparr>visited := True, inStack := True\<rparr>], cycle)
           (Children (h ! a)) = Some (found, h', cycle')"
  shows "dfs (Suc fuel) (h, cycle) a =
           (if found then Some (True, h', cycle' @ [Name (h' ! a)])
            else Some (False, h'[a := (h' ! a)\<lparr>inStack := False\<rparr>], cycle'))"
  using assms by simp

lemma grows_card: "grows h h' \<Longrightarrow> card (unvisited h') \<le> card (unvisited h)"
  by (simp add: grows_def card_mono)

subsection \<open>Acyclic graphs pass the cycle check\<close>

text \<open>
  \<open>acyclic_graph rank g h\<close>: the nodes of the graph are in the heap, every child of a node
  of the graph is a node of the graph, and \<open>rank\<close> grows strictly from a node to each of
  its children. A graph has such a ranking exactly when its child edges form no cycle.
  \<open>only_flags G h h'\<close>: the heap \<open>h'\<close> is \<open>h\<close> up to the flags of the nodes in \<open>G\<close>, and no
  visited mark was cleared.
\<close>

definition acyclic_graph :: "(addr \<Rightarrow> nat) \<Rightarrow> Graph \<Rightarrow> heap \<Rightarrow> bool" where
  "acyclic_graph rank g h =
     (\<forall>a \<in> snd ` set g. a < length h
        \<and> (\<forall>c \<in> set (Children (h ! a)). c \<in> snd ` set g \<and> rank a < rank c))"

definition only_flags :: "nat set \<Rightarrow> heap \<Rightarrow> heap \<Rightarrow> bool" where
  "only_flags G h h' =
     (same_graph h h'
      \<and> (\<forall>i<length h. (visited (h ! i) \<longrightarrow> visited (h' ! i)) \<and> (i \<notin> G \<longrightarrow> h' ! i = h ! i)))"

definition stack_below :: "(addr \<Rightarrow> nat) \<Rightarrow> nat set \<Rightarrow> heap \<Rightarrow> addr \<Rightarrow> bool" where
  "stack_below rank G h a = (\<forall>i\<in>G. i < length h \<and> inStack (h ! i) \<longrightarrow> rank i < rank a)"

definition dfs_post :: "nat set \<Rightarrow> heap \<Rightarrow> heap \<Rightarrow> bool" where
  "dfs_post G h h' =
     (only_flags G h h' \<and> (\<forall>i<length h. inStack (h' ! i) = inStack (h ! i)))"

lemma only_flags_refl [simp]: "only_flags G h h"
  by (simp add: only_flags_def)

lemma only_flags_trans: "only_flags G h h1 \<Longrightarrow> only_flags G h1 h2 \<Longrightarrow> only_flags G h h2"
  unfolding only_flags_def same_graph_def by auto

lemma only_flags_grows: "only_flags G h h' \<Longrightarrow> grows h h'"
  by (auto simp: only_flags_def grows_def unvisited_def same_graph_def)

lemma only_flags_update:
  assumes "a \<in> G" "Name n = Name (h ! a)" "IsPlaceholder n = IsPlaceholder (h ! a)"
    "Parents n = Parents (h ! a)" "Children n = Children (h ! a)" "visited (h ! a) \<longrightarrow> visited n"
  shows "only_flags G h (h[a := n])"
  unfolding only_flags_def
  using same_graph_update[OF assms(2-5)] assms(1,6) by (auto simp: nth_update_if)

lemma only_flags_length: "only_flags G h h' \<Longrightarrow> length h' = length h"
  by (simp add: only_flags_def same_graph_def)

lemma only_flags_same_graph: "only_flags G h h' \<Longrightarrow> same_graph h h'"
  by (simp add: only_flags_def)

lemma only_flags_frame: "only_flags G h h' \<Longrightarrow> i < length h \<Longrightarrow> i \<notin> G \<Longrightarrow> h' ! i = h ! i"
  by (simp add: only_flags_def)

lemma dfs_post_refl [simp]: "dfs_post G h h"
  by (simp add: dfs_post_def)

lemma range_until_never:
  assumes "\<And>s x. P s \<Longrightarrow> x \<in> set xs \<Longrightarrow> \<exists>s'. f s x = Some (False, s') \<and> P s'"
    and "P s"
  shows "\<exists>s'. range_until f s xs = Some (False, s') \<and> P s'"
  using assms
proof (induction xs arbitrary: s)
  case Nil
  then show ?case by simp
next
  case (Cons x xs)
  have "x \<in> set (x # xs)" by simp
  from Cons.prems(1)[OF Cons.prems(2) this] obtain s1 where
    s1: "f s x = Some (False, s1)" "P s1" by blast
  have "\<exists>s'. range_until f s1 xs = Some (False, s') \<and> P s'"
    using Cons.IH[OF _ s1(2)] Cons.prems(1) by auto
  then show ?case using s1 by simp
qed

lemma acyclic_graph_same:
  assumes "same_graph h h'" "acyclic_graph rank g h"
  shows "acyclic_graph rank g h'"
  unfolding acyclic_graph_def
proof
  fix a assume a: "a \<in> snd ` set g"
  then have *: "a < length h" "\<forall>c \<in> set (Children (h ! a)). c \<in> snd ` set g \<and> rank a < rank c"
    using assms(2) unfolding acyclic_graph_def by blast+
  have "length h' = length h" "Children (h' ! a) = Children (h ! a)"
    using assms(1) *(1) by (simp_all add: same_graph_def)
  then show "a < length h' \<and> (\<forall>c \<in> set (Children (h' ! a)). c \<in> snd ` set g \<and> rank a < rank c)"
    using * by simp
qed

text \<open>
  On an acyclic graph \<open>dfs\<close> finds no cycle: when every node on the stack has a rank below
  the rank of the node it is called on, it returns false, leaves the stack flags and the
  cycle as they were and marks the node visited.
\<close>

lemma dfs_acyclic:
  assumes acyc: "acyclic_graph rank g h0" and G: "G = snd ` set g"
  shows "same_graph h0 h \<Longrightarrow> a \<in> G \<Longrightarrow> stack_below rank G h a \<Longrightarrow> card (unvisited h) < fuel \<Longrightarrow>
         \<exists>h'. dfs fuel (h, cycle) a = Some (False, h', cycle) \<and> dfs_post G h h' \<and> visited (h' ! a)"
proof (induction fuel arbitrary: h a)
  case 0
  then show ?case by simp
next
  case (Suc fuel)
  have len: "length h = length h0" using Suc.prems(1) by (simp add: same_graph_def)
  have a0: "a < length h0"
    and kids: "\<forall>c \<in> set (Children (h0 ! a)). c \<in> G \<and> rank a < rank c"
    using acyc Suc.prems(2) unfolding acyclic_graph_def G by blast+
  have a: "a < length h" using a0 len by simp
  have ns: "\<not> inStack (h ! a)" using Suc.prems(2,3) a by (auto simp: stack_below_def)
  show ?case
  proof (cases "visited (h ! a)")
    case True
    then show ?thesis using ns by simp
  next
    case False
    let ?h1 = "h[a := (h ! a)\<lparr>visited := True, inStack := True\<rparr>]"
    have card1: "card (unvisited ?h1) < card (unvisited h)"
      using a False by (intro mark_visited_card) simp_all
    have of1: "only_flags G h ?h1"
      using Suc.prems(2) by (intro only_flags_update) simp_all
    have ch: "Children (h ! a) = Children (h0 ! a)"
      using Suc.prems(1) a len by (simp add: same_graph_def)
    define P where "P = (\<lambda>st :: heap \<times> string list.
        snd st = cycle \<and> only_flags G ?h1 (fst st)
        \<and> (\<forall>i<length h. inStack (fst st ! i) = inStack (?h1 ! i)) \<and> visited (fst st ! a))"
    have step: "\<exists>s'. dfs fuel s x = Some (False, s') \<and> P s'"
      if Ps: "P s" and x: "x \<in> set (Children (h ! a))" for s x
    proof -
      obtain hs cs where s: "s = (hs, cs)" by (cases s)
      have cs: "cs = cycle" and ofs: "only_flags G ?h1 hs"
        and st: "\<forall>i<length h. inStack (hs ! i) = inStack (?h1 ! i)" and va: "visited (hs ! a)"
        using Ps by (simp_all add: P_def s)
      have sg: "same_graph h0 hs"
        using Suc.prems(1) of1 ofs same_graph_trans unfolding only_flags_def by blast
      have lens: "length hs = length h" using only_flags_length[OF ofs] by simp
      have xG: "x \<in> G" and rk: "rank a < rank x" using x ch kids by auto
      have "stack_below rank G hs x"
        unfolding stack_below_def
      proof (intro ballI impI)
        fix i assume iG: "i \<in> G" and "i < length hs \<and> inStack (hs ! i)"
        then have i: "i < length hs" "inStack (hs ! i)" by simp_all
        then have "inStack (?h1 ! i)" using st lens by simp
        then have "i = a \<or> inStack (h ! i)" using i lens by (auto simp: nth_update_if split: if_splits)
        then show "rank i < rank x"
          using rk Suc.prems(3) i(1) iG lens by (auto simp: stack_below_def)
      qed
      moreover have "card (unvisited hs) < fuel"
        using grows_card[OF only_flags_grows[OF ofs]] card1 Suc.prems(4) by simp
      ultimately obtain h' where
        r: "dfs fuel (hs, cycle) x = Some (False, h', cycle)" "dfs_post G hs h'"
        using Suc.IH[OF sg xG] by blast
      have "only_flags G ?h1 h'" using ofs r(2) only_flags_trans by (auto simp: dfs_post_def)
      moreover have "\<forall>i<length h. inStack (h' ! i) = inStack (?h1 ! i)"
        using r(2) st lens by (simp add: dfs_post_def)
      moreover have "visited (h' ! a)"
        using r(2) va a lens by (simp add: dfs_post_def only_flags_def)
      ultimately have "P (h', cycle)" by (simp add: P_def)
      then show ?thesis using r(1) s cs by simp
    qed
    have "P (?h1, cycle)" using a by (simp add: P_def)
    from range_until_never[where P = P and f = "dfs fuel", OF step this]
    obtain s' where r: "range_until (dfs fuel) (?h1, cycle) (Children (h ! a)) = Some (False, s')"
      and Ps: "P s'" by blast
    obtain h2 c2 where s': "s' = (h2, c2)" by (cases s')
    have c2: "c2 = cycle" and of2: "only_flags G ?h1 h2"
      and st2: "\<forall>i<length h. inStack (h2 ! i) = inStack (?h1 ! i)" and va2: "visited (h2 ! a)"
      using Ps by (simp_all add: P_def s')
    let ?h3 = "h2[a := (h2 ! a)\<lparr>inStack := False\<rparr>]"
    have eq: "dfs (Suc fuel) (h, cycle) a = Some (False, ?h3, cycle)"
      using dfs_Suc_fresh[OF ns False r[unfolded s']] c2 by simp
    have len2: "length h2 = length h" using only_flags_length[OF of2] by simp
    have "only_flags G h2 ?h3" using Suc.prems(2) by (intro only_flags_update) simp_all
    then have of3: "only_flags G h ?h3" using of1 of2 only_flags_trans by blast
    have "\<forall>i<length h. inStack (?h3 ! i) = inStack (h ! i)"
      using st2 ns len2 by (auto simp: nth_update_if)
    then have "dfs_post G h ?h3" using of3 by (simp add: dfs_post_def)
    moreover have "visited (?h3 ! a)" using va2 a len2 by (simp add: nth_update_if)
    ultimately show ?thesis unfolding eq by blast
  qed
qed

lemma reset_fold_nth:
  assumes idem: "\<And>n. f (f n) = f n"
  shows "i < length h \<Longrightarrow>
    fold (\<lambda>node h. h[node := f (h ! node)]) nodes h ! i
      = (if i \<in> set nodes then f (h ! i) else h ! i)"
proof (induction nodes arbitrary: h)
  case Nil
  then show ?case by simp
next
  case (Cons a nodes)
  have "i < length (h[a := f (h ! a)])" using Cons.prems by simp
  from Cons.IH[OF this] show ?case
    using Cons.prems by (auto simp: nth_update_if idem)
qed

text \<open>
  \<open>HasCycles\<close> on an acyclic graph returns false and the empty cycle, whatever flags the
  nodes carried before the call; only flags of nodes of the graph change.
\<close>

lemma HasCycles_acyclic:
  assumes acyc: "acyclic_graph rank g h" and fuel: "length h < fuel"
  shows "\<exists>h'. HasCycles fuel g h = Some ((False, []), h') \<and> same_graph h h'
           \<and> (\<forall>i<length h. i \<notin> snd ` set g \<longrightarrow> h' ! i = h ! i)"
proof -
  define G where "G = snd ` set g"
  have G: "set (map snd g) = G" by (simp add: G_def)
  let ?f = "\<lambda>n :: Node. n\<lparr>visited := False, inStack := False\<rparr>"
  define h0 where "h0 = fold (\<lambda>node h. h[node := (h ! node)\<lparr>visited := False, inStack := False\<rparr>])
               (map snd g) h"
  let ?body = "\<lambda>st node. if \<not> visited (fst st ! node) then dfs fuel st node
                            else Some (False, st)"
  have sg0: "same_graph h h0" unfolding h0_def by (rule same_graph_reset) simp_all
  have acyc0: "acyclic_graph rank g h0" using sg0 acyc by (rule acyclic_graph_same)
  have len0: "length h0 = length h" using sg0 by (simp add: same_graph_def)
  have inG: "a < length h" if "a \<in> G" for a
    using acyc that unfolding acyclic_graph_def G_def by blast
  have nth0: "h0 ! i = (if i \<in> G then ?f (h ! i) else h ! i)" if "i < length h" for i
    unfolding h0_def
    using reset_fold_nth[where f = ?f and nodes = "map snd g" and h = h, OF _ that] G by simp
  define P where "P = (\<lambda>st :: heap \<times> string list.
      snd st = [] \<and> same_graph h0 (fst st) \<and> (\<forall>i\<in>G. \<not> inStack (fst st ! i))
      \<and> (\<forall>i<length h. i \<notin> G \<longrightarrow> fst st ! i = h0 ! i))"
  have step: "\<exists>s'. ?body s x = Some (False, s') \<and> P s'" if Ps: "P s" and x: "x \<in> set (map snd g)"
    for s x
  proof (cases "visited (fst s ! x)")
    case True
    then show ?thesis using Ps by simp
  next
    case False
    obtain hs cs where s: "s = (hs, cs)" by (cases s)
    have cs: "cs = []" and sgs: "same_graph h0 hs" and nst: "\<forall>i\<in>G. \<not> inStack (hs ! i)"
      and fr: "\<forall>i<length h. i \<notin> G \<longrightarrow> hs ! i = h0 ! i"
      using Ps by (simp_all add: P_def s)
    have lens: "length hs = length h" using sgs len0 by (simp add: same_graph_def)
    have xG: "x \<in> G" using x G by simp
    have sb: "stack_below rank G hs x" using nst by (simp add: stack_below_def)
    have cd: "card (unvisited hs) < fuel" using card_unvisited_le[of hs] lens fuel by simp
    from dfs_acyclic[OF acyc0 G_def sgs xG sb cd, of "[]"] obtain h' where
      r: "dfs fuel (hs, []) x = Some (False, h', [])" "dfs_post G hs h'" by blast
    have of: "only_flags G hs h'" using r(2) by (simp add: dfs_post_def)
    have "same_graph h0 h'" using sgs only_flags_same_graph[OF of] by (rule same_graph_trans)
    moreover have "\<forall>i\<in>G. \<not> inStack (h' ! i)"
      using r(2) nst inG lens by (auto simp: dfs_post_def)
    moreover have "\<forall>i<length h. i \<notin> G \<longrightarrow> h' ! i = h0 ! i"
      using only_flags_frame[OF of] fr lens by simp
    ultimately have "P (h', [])" by (simp add: P_def)
    then show ?thesis using r(1) s cs False by simp
  qed
  have "\<forall>i\<in>G. \<not> inStack (h0 ! i)" using nth0 inG by simp
  then have "P (h0, [])" by (simp add: P_def)
  from range_until_never[where P = P and f = ?body, OF step this]
  obtain s' where r: "range_until ?body (h0, []) (map snd g) = Some (False, s')" and Ps: "P s'"
    by blast
  obtain h1 c1 where s': "s' = (h1, c1)" by (cases s')
  have sg1: "same_graph h h1" using Ps sg0 same_graph_trans by (auto simp: P_def s')
  have "\<forall>i<length h. i \<notin> G \<longrightarrow> h1 ! i = h ! i"
    using Ps nth0 by (simp add: P_def s')
  moreover have "HasCycles fuel g h = Some ((False, []), h1)"
    using r s' Ps by (simp add: HasCycles_def h0_def P_def)
  ultimately show ?thesis using sg1 unfolding G_def by blast
qed

definition empty_error :: "bool \<times> string list \<Rightarrow> graph_error" where
  "empty_error r = (if fst r then CircularDependency (snd r) else NoContainersToSort)"

lemma TopologicalSort_no_containers:
  assumes "\<forall>a \<in> set (map snd g). a < length h \<and> IsPlaceholder (h ! a)"
    and "HasCycles fuel g h = Some (r, h1)" "same_graph h h1"
  shows "\<exists>h2. TopologicalSort fuel g h = Some (Inl (empty_error r), h2)"
proof (cases "fst r")
  case True
  then show ?thesis using assms(2)
    by (cases r) (simp add: TopologicalSort_def Validate_def empty_error_def)
next
  case False
  let ?h0 = "fold (\<lambda>node h. h[node := (h ! node)\<lparr>visited := False, sortIndex := - 1\<rparr>])
               (map snd g) h1"
  let ?body = "\<lambda>st node. if \<not> visited (fst st ! node) \<and> \<not> IsPlaceholder (fst st ! node)
                        then visit fuel st node else Some st"
  have "same_graph h1 ?h0" by (rule same_graph_reset) simp_all
  then have sg: "same_graph h ?h0" using assms(3) same_graph_trans by blast
  have "?body (?h0, [], 0) x = Some (?h0, [], 0)" if "x \<in> set (map snd g)" for x
    using that assms(1) sg by (auto simp: same_graph_def)
  then have "range_all ?body (?h0, [], 0) (map snd g) = Some (?h0, [], 0)"
    by (rule range_all_unchanged)
  then show ?thesis using False assms(2)
    by (cases r) (simp add: TopologicalSort_def Validate_def empty_error_def)
qed

text \<open>
  Claim C10. For an acyclic graph whose nodes are all placeholders (the empty graph
  included) and fuel above the number of nodes, \<open>HasCycles\<close> reports no cycle, and
  \<open>TopologicalSort\<close>, \<open>GetStartupBatches\<close> and \<open>GetShutdownBatches\<close> return the error "no
  containers to sort", not an empty ordering. Acyclic is stated by a ranking of the nodes
  that grows along every child edge, not by the answer of \<open>HasCycles\<close>; the flags the
  nodes carry before the call are arbitrary.
\<close>

theorem C10_no_containers_is_an_error:
  assumes "acyclic_graph rank g h"
    and "\<forall>kv \<in> set g. IsPlaceholder (h ! snd kv)"
    and "length h < fuel"
  shows "\<exists>h1 h2.
           HasCycles fuel g h = Some ((False, []), h1)
         \<and> TopologicalSort fuel g h = Some (Inl NoContainersToSort, h2)
         \<and> GetStartupBatches fuel g h = Some (Inl NoContainersToSort, h2)
         \<and> GetShutdownBatches fuel g h = Some (Inl NoContainersToSort, h2)"
proof -
  have nodes: "\<forall>a \<in> set (map snd g). a < length h \<and> IsPlaceholder (h ! a)"
    using assms(1,2) unfolding acyclic_graph_def by auto
  from HasCycles_acyclic[OF assms(1,3)]
  obtain h1 where r: "HasCycles fuel g h = Some ((False, []), h1)" "same_graph h h1" by blast
  from TopologicalSort_no_containers[OF nodes r]
  obtain h2 where t: "TopologicalSort fuel g h = Some (Inl NoContainersToSort, h2)"
    by (auto simp: empty_error_def)
  have "GetStartupBatches fuel g h = Some (Inl NoContainersToSort, h2)"
    by (simp add: GetStartupBatches_def t)
  moreover from this have "GetShutdownBatches fuel g h = Some (Inl NoContainersToSort, h2)"
    by (simp add: GetShutdownBatches_def)
  ultimately show ?thesis using r(1) t by blast
qed

text \<open>
  Claim C1, at a failing input. The containers x (depends on b), b (controller label
  "false", depends on p), p, and n (depends on p) give an acyclic graph in which the
  placeholder b has the parent p. \<open>GetConnectedComponents\<close> returns two components: the
  batches \<open>[[p, x]]\<close> and the batches \<open>[[], [n]]\<close>. The node n is in batch 1 of its
  component and its parent p, not a placeholder, is in no batch of that component.
  \<open>GetStartupBatches\<close> on the whole graph returns \<open>[[p, x], [n]]\<close>.
\<close>

theorem C1_failing_input:
  "Build c1_containers = Some (c1_graph, c1_heap)
   \<and> map_option fst (HasCycles 10 c1_graph c1_heap) = Some (False, [])
   \<and> map_option fst (GetConnectedComponents 10 c1_graph c1_heap)
       = Some (Inr [\<lparr>Batches = [[1, 0]]\<rparr>, \<lparr>Batches = [[], [2]]\<rparr>])
   \<and> Parents (c1_heap ! 2) = [1] \<and> \<not> IsPlaceholder (c1_heap ! 1) \<and> \<not> IsPlaceholder (c1_heap ! 2)
   \<and> map_option fst (GetStartupBatches 10 c1_graph c1_heap) = Some (Inr [[1, 0], [2]])"
  by code_simp

lemma c3_build: "Build c3_containers = Some (c3_graph, c3_heap)"
  by code_simp

lemma two_cycle_depth_diverges:
  assumes "Name (h ! a) \<noteq> Name (h ! b)"
    "Parents (h ! a) = [b]" "Parents (h ! b) = [a]"
    "\<not> IsPlaceholder (h ! a)" "\<not> IsPlaceholder (h ! b)"
  shows "depths (Name (h ! a)) = None \<Longrightarrow> depths (Name (h ! b)) = None \<Longrightarrow>
         calculateDepth fuel h depths a = None \<and> calculateDepth fuel h depths b = None"
proof (induction fuel)
  case 0
  then show ?case by simp
next
  case (Suc fuel)
  then show ?case using assms by simp
qed

lemma c3_small_fuel:
  "GetConnectedComponents 0 c3_graph c3_heap = None"
  "GetConnectedComponents 1 c3_graph c3_heap = None"
  "GetConnectedComponents 2 c3_graph c3_heap = None"
  "GetConnectedComponents 3 c3_graph c3_heap = None"
  "GetConnectedComponents 4 c3_graph c3_heap = None"
  by code_simp+

lemma c3_depth_diverges:
  "Name (h ! 2) \<noteq> Name (h ! Suc 0) \<Longrightarrow> Parents (h ! 2) = [Suc 0] \<Longrightarrow>
   Parents (h ! Suc 0) = [2] \<Longrightarrow> \<not> IsPlaceholder (h ! 2) \<Longrightarrow> \<not> IsPlaceholder (h ! Suc 0) \<Longrightarrow>
   calculateDepth fuel h Map.empty 2 = None"
  using two_cycle_depth_diverges[of h 2 "Suc 0" Map.empty fuel] by simp

lemma c3_large_fuel:
  "GetConnectedComponents (Suc (Suc (Suc (Suc (Suc n))))) c3_graph c3_heap = None"
  by (simp add: GetConnectedComponents_def c3_graph_def c3_heap_def findComponent_def
      getBatchesForComponent_def map_store_def GetStartupBatches_def TopologicalSort_def
      Validate_def HasCycles_def reverse_fill_def Let_def c3_depth_diverges
      del: calculateDepth.simps)

lemma c3_never_returns: "GetConnectedComponents fuel c3_graph c3_heap = None"
proof -
  consider "fuel = 0" | "fuel = 1" | "fuel = 2" | "fuel = 3" | "fuel = 4"
    | n where "fuel = Suc (Suc (Suc (Suc (Suc n))))"
    by (metis One_nat_def Suc_1 numeral_3_eq_3 numeral_eq_Suc pred_numeral_simps(2)
        semiring_norm(26,27) not0_implies_Suc)
  then show ?thesis
    using c3_small_fuel c3_large_fuel by cases auto
qed

lemma c3_stop_never_returns:
  "GetConnectedComponentsForShutdown fuel c3_graph c3_heap = None"
  by (simp add: GetConnectedComponentsForShutdown_def c3_never_returns)

text \<open>
  Claim C2, at a failing input. The containers x (depends on b), b (controller label
  "false", depends on p), p (depends on c) and c (controller label "false", depends on
  p) give a graph with the cycle p, c, p: \<open>HasCycles\<close> reports it and \<open>TopologicalSort\<close>
  returns the error. The two plans return no error: one component with the batch
  \<open>[p, x]\<close>, which is then started or stopped. With q, a container that depends on p, in
  the place of c and p depending on q, the cycle p, q, p is between two containers that
  are started; \<open>HasCycles\<close> reports it, and the two plans return nothing, whatever the
  fuel: \<open>calculateDepth\<close> calls itself on p and q in turn without end.
\<close>

theorem C2_failing_input:
  "Build c2_containers = Some (c2_graph, c2_heap)
   \<and> map_option fst (HasCycles 10 c2_graph c2_heap) = Some (True, [''p'', ''c'', ''p''])
   \<and> map_option fst (TopologicalSort 10 c2_graph c2_heap)
       = Some (Inl (CircularDependency [''p'', ''c'', ''p'']))
   \<and> StartContainers_plan 10 (Inr c2_containers) = Some (Inr [\<lparr>Batches = [[1, 0]]\<rparr>])
   \<and> StopContainers_plan 10 (Inr c2_containers) = Some (Inr [\<lparr>Batches = [[1, 0]]\<rparr>])
   \<and> Build c3_containers = Some (c3_graph, c3_heap)
   \<and> map_option fst (HasCycles 10 c3_graph c3_heap) = Some (True, [''p'', ''q'', ''p''])
   \<and> StartContainers_plan fuel (Inr c3_containers) = None
   \<and> StopContainers_plan fuel (Inr c3_containers) = None"
proof -
  have "Build c2_containers = Some (c2_graph, c2_heap)
      \<and> map_option fst (HasCycles 10 c2_graph c2_heap) = Some (True, [''p'', ''c'', ''p''])
      \<and> map_option fst (TopologicalSort 10 c2_graph c2_heap)
          = Some (Inl (CircularDependency [''p'', ''c'', ''p'']))
      \<and> StartContainers_plan 10 (Inr c2_containers) = Some (Inr [\<lparr>Batches = [[1, 0]]\<rparr>])
      \<and> StopContainers_plan 10 (Inr c2_containers) = Some (Inr [\<lparr>Batches = [[1, 0]]\<rparr>])
      \<and> map_option fst (HasCycles 10 c3_graph c3_heap) = Some (True, [''p'', ''q'', ''p''])"
    by code_simp
  moreover have "StartContainers_plan fuel (Inr c3_containers) = None"
    by (simp add: StartContainers_plan_def c3_build c3_never_returns)
  moreover have "StopContainers_plan fuel (Inr c3_containers) = None"
    by (simp add: StopContainers_plan_def c3_build c3_stop_never_returns)
  ultimately show ?thesis using c3_build by blast
qed

theorem C10_witness:
  "acyclic_graph (\<lambda>a. a) chain_graph chain_heap
   \<and> map (\<lambda>kv. IsPlaceholder (chain_heap ! snd kv)) chain_graph = [True, True]
   \<and> Children (chain_heap ! 0) = [1]
   \<and> map_option fst (HasCycles 3 chain_graph chain_heap) = Some (False, [])
   \<and> map_option fst (TopologicalSort 3 chain_graph chain_heap) = Some (Inl NoContainersToSort)
   \<and> map_option fst (GetStartupBatches 3 chain_graph chain_heap) = Some (Inl NoContainersToSort)
   \<and> map_option fst (GetShutdownBatches 3 chain_graph chain_heap) = Some (Inl NoContainersToSort)"
proof -
  have a: "acyclic_graph (\<lambda>a. a) chain_graph chain_heap"
    by (simp add: acyclic_graph_def chain_graph_def chain_heap_def AddParent_def
        NewPlaceholderNode_def)
  have b: "\<forall>kv \<in> set chain_graph. IsPlaceholder (chain_heap ! snd kv)"
    by (simp add: chain_graph_def chain_heap_def AddParent_def NewPlaceholderNode_def)
  have c: "length chain_heap < 3" by (simp add: chain_heap_def AddParent_def)
  have d: "map (\<lambda>kv. IsPlaceholder (chain_heap ! snd kv)) chain_graph = [True, True]"
    "Children (chain_heap ! 0) = [1]"
    by (simp_all add: chain_graph_def chain_heap_def AddParent_def NewPlaceholderNode_def)
  from C10_no_containers_is_an_error[OF a b c]
  show ?thesis using a d by auto
qed

end
